theory Spec2Isabelle
  imports Complex_Main "HOL-Library.Multiset"
begin

section \<open>DeepseekV3: gate, expert dispatch and latent attention\<close>

text \<open>
  A shallow embedding of \<^verbatim>\<open>modular_deepseek_v3.py\<close>. Tensors are nested lists of
  reals (the floating-point numbers of the source are idealised as reals), dimensions are
  natural numbers, and every raise of the source or of a tensor primitive it calls is the
  value \<open>None\<close> (or \<open>Inl\<close> of an error where the kind of error matters). Where torch
  broadcasts, the rotary tables against the queries and keys and the source of a slice
  assignment over the slice, the model broadcasts as well.
\<close>

type_synonym vec = "real list"
type_synonym tensor2 = "vec list"
type_synonym tensor3 = "vec list list"
type_synonym tensor4 = "vec list list list"

subsection \<open>Attention scaling (\<^verbatim>\<open>yarn_get_mscale\<close>, \<^verbatim>\<open>DeepseekV3Attention.__init__\<close>)\<close>

datatype error = KeyError | ZeroDivisionError

text \<open>\<^verbatim>\<open>def yarn_get_mscale(scale=1, mscale=1)\<close>\<close>

definition yarn_get_mscale :: "real \<Rightarrow> real \<Rightarrow> real" where
  "yarn_get_mscale scale mscale =
     (if scale \<le> 1 then 1 else 0.1 * mscale * ln scale + 1)"

text \<open>
  The last lines of \<^verbatim>\<open>__init__\<close>: \<open>rope_scaling\<close> is \<open>None\<close> or a dictionary;
  \<^verbatim>\<open>.get("mscale_all_dim", 0)\<close> defaults to 0, \<^verbatim>\<open>["factor"]\<close> raises KeyError on a
  missing key, and \<^verbatim>\<open>if mscale_all_dim:\<close> tests for a non-zero number. Python raises
  ZeroDivisionError for \<^verbatim>\<open>0 ** (-0.5)\<close>.
\<close>

definition attention_scaling :: "nat \<Rightarrow> (string \<rightharpoonup> real) option \<Rightarrow> error + real" where
  "attention_scaling q_head_dim rope_scaling =
     (if q_head_dim = 0 then Inl ZeroDivisionError
      else
        let scaling = real q_head_dim powr (- 0.5) in
        case rope_scaling of
          None \<Rightarrow> Inr scaling
        | Some rs \<Rightarrow>
            let mscale_all_dim = (case rs ''mscale_all_dim'' of None \<Rightarrow> 0 | Some m \<Rightarrow> m) in
            (case rs ''factor'' of
               None \<Rightarrow> Inl KeyError
             | Some scaling_factor \<Rightarrow>
                 if mscale_all_dim \<noteq> 0
                 then let mscale = yarn_get_mscale scaling_factor mscale_all_dim
                      in Inr (scaling * mscale * mscale)
                 else Inr scaling))"

subsection \<open>Tensor primitives\<close>

text \<open>
  The primitives of torch that the source calls are not part of the repository; they are
  modelled from their documented behaviour, on one row or vector at a time.
\<close>

definition dot :: "vec \<Rightarrow> vec \<Rightarrow> real" where
  "dot w x = sum_list (map2 (*) w x)"

text \<open>\<^verbatim>\<open>F.linear(x, W)\<close> on one row: one dot product per row of the weight.\<close>

definition linear_row :: "tensor2 \<Rightarrow> vec \<Rightarrow> vec" where
  "linear_row W x = map (\<lambda>w. dot w x) W"

definition sigmoid :: "real \<Rightarrow> real" where
  "sigmoid x = 1 / (1 + exp (- x))"

text \<open>
  \<^verbatim>\<open>torch.topk(xs, k)\<close> returns the \<open>k\<close> largest entries and their positions, and raises
  when \<open>k\<close> exceeds the length (the callers below test this first). With
  \<^verbatim>\<open>sorted=False\<close> torch leaves the order of the results and the choice among equal
  entries open; the model returns them in descending order, the lowest position first
  among equal entries.
\<close>

definition topk :: "vec \<Rightarrow> nat \<Rightarrow> vec \<times> nat list" where
  "topk xs k =
     (let indices = take k (sort_key (\<lambda>i. - (xs ! i)) [0..<length xs])
      in (map (\<lambda>i. xs ! i) indices, indices))"

text \<open>\<^verbatim>\<open>t.view(n_group, size)\<close> of one row: \<open>n_group\<close> consecutive pieces of \<open>size\<close> entries.\<close>

definition view_groups :: "nat \<Rightarrow> nat \<Rightarrow> 'a list \<Rightarrow> 'a list list" where
  "view_groups n_group sz xs = map (\<lambda>g. take sz (drop (g * sz) xs)) [0..<n_group]"

text \<open>\<^verbatim>\<open>mask.scatter_(1, idx, 1)\<close> on one row of zeros.\<close>

definition scatter_ones :: "nat \<Rightarrow> nat list \<Rightarrow> 'a :: zero_neq_one list" where
  "scatter_ones n idx = foldl (\<lambda>m i. m[i := 1]) (replicate n 0) idx"

subsection \<open>The gate (\<^verbatim>\<open>MoEGate\<close>)\<close>

record gate_config =
  hidden_size :: nat
  top_k :: nat
  n_routed_experts :: nat
  routed_scaling_factor :: real
  n_group :: nat
  topk_group :: nat
  norm_topk_prob :: bool

text \<open>
  One token's row of \<^verbatim>\<open>MoEGate.forward\<close>, from \<^verbatim>\<open>scores_for_choice\<close> on; \<open>scores\<close>
  is the token's row of sigmoid scores. The results are the token's rows of
  \<^verbatim>\<open>topk_indices\<close> and \<^verbatim>\<open>topk_weights\<close>.
\<close>

definition gate_scores_for_choice :: "vec \<Rightarrow> vec \<Rightarrow> vec" where
  "gate_scores_for_choice bias scores = map2 (+) scores bias"

definition gate_group_scores :: "gate_config \<Rightarrow> vec \<Rightarrow> vec" where
  "gate_group_scores cfg scores_for_choice =
     map (\<lambda>g. sum_list (fst (topk g 2)))
       (view_groups (n_group cfg) (n_routed_experts cfg div n_group cfg) scores_for_choice)"

definition gate_group_idx :: "gate_config \<Rightarrow> vec \<Rightarrow> nat list" where
  "gate_group_idx cfg scores_for_choice =
     snd (topk (gate_group_scores cfg scores_for_choice) (topk_group cfg))"

definition gate_score_mask :: "gate_config \<Rightarrow> vec \<Rightarrow> real list" where
  "gate_score_mask cfg scores_for_choice =
     (let group_mask = scatter_ones (n_group cfg) (gate_group_idx cfg scores_for_choice) :: vec
      in concat (map (replicate (n_routed_experts cfg div n_group cfg)) group_mask))"

definition gate_masked_scores :: "gate_config \<Rightarrow> vec \<Rightarrow> vec" where
  "gate_masked_scores cfg scores_for_choice =
     map2 (\<lambda>s m. if m \<noteq> 0 then s else 0) scores_for_choice
       (gate_score_mask cfg scores_for_choice)"

definition gate_topk_indices :: "gate_config \<Rightarrow> vec \<Rightarrow> vec \<Rightarrow> nat list" where
  "gate_topk_indices cfg bias scores =
     snd (topk (gate_masked_scores cfg (gate_scores_for_choice bias scores)) (top_k cfg))"

definition gate_topk_weights :: "gate_config \<Rightarrow> vec \<Rightarrow> nat list \<Rightarrow> vec" where
  "gate_topk_weights cfg scores topk_indices =
     (let topk_weights = map (\<lambda>i. scores ! i) topk_indices;
          topk_weights =
            (if norm_topk_prob cfg
             then let denominator = sum_list topk_weights + 1 / 10 ^ 20
                  in map (\<lambda>w. w / denominator) topk_weights
             else topk_weights)
      in map (\<lambda>w. w * routed_scaling_factor cfg) topk_weights)"

text \<open>
  The configurations and shapes on which \<^verbatim>\<open>MoEGate.forward\<close> raises: a zero
  \<open>n_group\<close> (ZeroDivisionError), an \<open>n_routed_experts\<close> that \<open>n_group\<close> does not divide
  (the \<^verbatim>\<open>view\<close> or the \<^verbatim>\<open>expand\<close>), groups of fewer than two experts
  (\<^verbatim>\<open>topk(2)\<close>), more groups or experts asked for than there are (the two other
  \<^verbatim>\<open>topk\<close>), and operands whose widths do not fit (\<^verbatim>\<open>F.linear\<close>, the sum with the
  bias). The parameters have the shapes \<^verbatim>\<open>__init__\<close> allocates.
\<close>

definition gate_shapes_ok :: "gate_config \<Rightarrow> tensor2 \<Rightarrow> vec \<Rightarrow> tensor3 \<Rightarrow> bool" where
  "gate_shapes_ok cfg weight bias hidden_states \<longleftrightarrow>
     n_group cfg \<noteq> 0 \<and>
     n_routed_experts cfg mod n_group cfg = 0 \<and>
     2 \<le> n_routed_experts cfg div n_group cfg \<and>
     topk_group cfg \<le> n_group cfg \<and>
     top_k cfg \<le> n_routed_experts cfg \<and>
     length weight = n_routed_experts cfg \<and>
     list_all (\<lambda>w. length w = hidden_size cfg) weight \<and>
     length bias = n_routed_experts cfg \<and>
     list_all (list_all (\<lambda>x. length x = hidden_size cfg)) hidden_states"

text \<open>
  \<^verbatim>\<open>MoEGate.forward\<close>: \<open>hidden_states\<close> is \<open>[batch, seq, hidden]\<close>, the results have one
  row per token of the flattened \<open>[batch * seq, hidden]\<close> view.
\<close>

definition MoEGate_scores :: "tensor2 \<Rightarrow> tensor3 \<Rightarrow> tensor2" where
  "MoEGate_scores weight hidden_states =
     (let hidden_states = concat hidden_states;
          logits = map (linear_row weight) hidden_states
      in map (map sigmoid) logits)"

definition MoEGate_forward ::
  "gate_config \<Rightarrow> tensor2 \<Rightarrow> vec \<Rightarrow> tensor3 \<Rightarrow> (nat list list \<times> tensor2) option" where
  "MoEGate_forward cfg weight bias hidden_states =
     (if \<not> gate_shapes_ok cfg weight bias hidden_states then None
      else
        let scores = MoEGate_scores weight hidden_states;
            topk_indices = map (gate_topk_indices cfg bias) scores;
            topk_weights = map2 (gate_topk_weights cfg) scores topk_indices
        in Some (topk_indices, topk_weights))"

subsection \<open>Broadcasting\<close>

text \<open>
  The broadcasting of torch for two tensors with the same number of axes: on every axis
  the two sizes are equal or one of them is 1, otherwise the operation raises; the result
  has the size that is not 1, and the tensor of size 1 is read at index 0 all along the
  axis. \<open>broadcast_level\<close> is one axis, with the operation \<open>g\<close> of the axes under it;
  \<open>broadcast_op\<close> is an elementwise operation such as \<^verbatim>\<open>*\<close> or \<^verbatim>\<open>+\<close> on tensors of
  four axes. A tensor is a nested list, so an axis of size 0 has no sizes under it to
  compare.
\<close>

definition broadcast_size :: "nat \<Rightarrow> nat \<Rightarrow> nat" where
  "broadcast_size n m = (if n = 1 then m else n)"

definition broadcast_index :: "nat \<Rightarrow> nat \<Rightarrow> nat" where
  "broadcast_index n i = (if n = 1 then 0 else i)"

definition broadcast_level :: "('a \<Rightarrow> 'b \<Rightarrow> 'c option) \<Rightarrow> 'a list \<Rightarrow> 'b list \<Rightarrow> 'c list option" where
  "broadcast_level g xs ys =
     (if length xs = length ys \<or> length xs = 1 \<or> length ys = 1
      then those (map (\<lambda>i. g (xs ! broadcast_index (length xs) i)
                              (ys ! broadcast_index (length ys) i))
                    [0..<broadcast_size (length xs) (length ys)])
      else None)"

definition broadcast_op1 :: "(real \<Rightarrow> real \<Rightarrow> real) \<Rightarrow> vec \<Rightarrow> vec \<Rightarrow> vec option" where
  "broadcast_op1 f = broadcast_level (\<lambda>a b. Some (f a b))"

definition broadcast_op :: "(real \<Rightarrow> real \<Rightarrow> real) \<Rightarrow> tensor4 \<Rightarrow> tensor4 \<Rightarrow> tensor4 option" where
  "broadcast_op f = broadcast_level (broadcast_level (broadcast_level (broadcast_op1 f)))"

subsection \<open>Rotary position embedding (\<^verbatim>\<open>apply_rotary_pos_emb\<close>)\<close>

text \<open>
  \<^verbatim>\<open>x.view(b, h, s, d // 2, 2).transpose(4, 3).reshape(b, h, s, d)\<close> on one vector of the
  last dimension: the entries at even positions, then those at odd positions. The
  \<^verbatim>\<open>view\<close> raises when the last dimension is odd.
\<close>

definition interleave_pairs :: "vec \<Rightarrow> vec" where
  "interleave_pairs x =
     map (\<lambda>i. x ! (2 * i)) [0..<length x div 2] @ map (\<lambda>i. x ! (2 * i + 1)) [0..<length x div 2]"

definition interleave_last :: "tensor4 \<Rightarrow> tensor4" where
  "interleave_last x = map (map (map interleave_pairs)) x"

definition last_dim_even :: "tensor4 \<Rightarrow> bool" where
  "last_dim_even x = list_all (list_all (list_all (\<lambda>xv. even (length xv)))) x"

text \<open>
  Modelled from the spec: \<^verbatim>\<open>rotate_half\<close> is imported from the Llama model and is not
  among the sources; the spec names it the standard rotate-half, which negates the second
  half of the last dimension and puts it before the first half.
\<close>

definition rotate_half :: "vec \<Rightarrow> vec" where
  "rotate_half x = map uminus (drop (length x div 2) x) @ take (length x div 2) x"

definition rotate_half_last :: "tensor4 \<Rightarrow> tensor4" where
  "rotate_half_last x = map (map (map rotate_half)) x"

text \<open>
  \<^verbatim>\<open>(x * cos) + (rotate_half(x) * sin)\<close> for a tensor \<open>[batch, heads, seq, d]\<close> and tables
  of four axes: two broadcasting products and a broadcasting sum, each of which may
  raise.
\<close>

definition rotate_embed :: "tensor4 \<Rightarrow> tensor4 \<Rightarrow> tensor4 \<Rightarrow> tensor4 option" where
  "rotate_embed x cos_t sin_t =
     (case broadcast_op (*) x cos_t of
        None \<Rightarrow> None
      | Some x_cos \<Rightarrow>
          (case broadcast_op (*) (rotate_half_last x) sin_t of
             None \<Rightarrow> None
           | Some rot_sin \<Rightarrow> broadcast_op (+) x_cos rot_sin))"

text \<open>
  The same expression over any product, sum and rotate-half; with the operations of one
  axis it is the expression on the tensors under that axis.
\<close>

definition rotate_ops ::
  "('x \<Rightarrow> 't \<Rightarrow> 'p option) \<Rightarrow> ('p \<Rightarrow> 'p \<Rightarrow> 'z option) \<Rightarrow> ('x \<Rightarrow> 'x) \<Rightarrow>
   'x \<Rightarrow> 't \<Rightarrow> 't \<Rightarrow> 'z option" where
  "rotate_ops mul add rot x c s =
     (case mul x c of
        None \<Rightarrow> None
      | Some x_cos \<Rightarrow>
          (case mul (rot x) s of
             None \<Rightarrow> None
           | Some rot_sin \<Rightarrow> add x_cos rot_sin))"

text \<open>\<^verbatim>\<open>t.unsqueeze(1)\<close> of a table \<open>[batch, seq, d]\<close>: a head axis of size 1.\<close>

definition unsqueeze_1 :: "tensor3 \<Rightarrow> tensor4" where
  "unsqueeze_1 t = map (\<lambda>tb. [tb]) t"

text \<open>
  \<^verbatim>\<open>apply_rotary_pos_emb(q, k, cos, sin)\<close>, with \<^verbatim>\<open>unsqueeze_dim=1\<close>: the tables get the
  head axis, \<open>q\<close> and \<open>k\<close> are de-interleaved, and both are rotated; the tables are
  broadcast against \<open>q\<close> and \<open>k\<close> on every axis.
\<close>

definition apply_rotary_pos_emb ::
  "tensor4 \<Rightarrow> tensor4 \<Rightarrow> tensor3 \<Rightarrow> tensor3 \<Rightarrow> (tensor4 \<times> tensor4) option" where
  "apply_rotary_pos_emb q k cos_t sin_t =
     (let cos_t = unsqueeze_1 cos_t;
          sin_t = unsqueeze_1 sin_t
      in if \<not> (last_dim_even q \<and> last_dim_even k) then None
         else
           let q = interleave_last q;
               k = interleave_last k
           in case rotate_embed q cos_t sin_t of
                None \<Rightarrow> None
              | Some q_embed \<Rightarrow>
                  (case rotate_embed k cos_t sin_t of
                     None \<Rightarrow> None
                   | Some k_embed \<Rightarrow> Some (q_embed, k_embed)))"

text \<open>
  \<^verbatim>\<open>(x * cos) + (rotate_half(x) * sin)\<close> on one vector and tables of the vector's width,
  where nothing is broadcast.
\<close>

definition rotate_vec :: "vec \<Rightarrow> vec \<Rightarrow> vec \<Rightarrow> vec" where
  "rotate_vec x c s = map2 (+) (map2 (*) x c) (map2 (*) (rotate_half x) s)"

text \<open>
  Tables of angles: the cosine and the sine table have the same shape and hold the cosine
  and sine of the same angle at every position (their squares sum to one), and the two
  halves of the last dimension are equal, as the rotary table \<^verbatim>\<open>cat((freqs, freqs))\<close>
  makes them. The opposite angles have the same cosines and the negated sines.
\<close>

definition angle_vec :: "vec \<Rightarrow> vec \<Rightarrow> bool" where
  "angle_vec c s \<longleftrightarrow>
     length s = length c \<and>
     list_all (\<lambda>i. (c ! i)\<^sup>2 + (s ! i)\<^sup>2 = 1) [0..<length c] \<and>
     list_all (\<lambda>i. c ! (i + length c div 2) = c ! i \<and> s ! (i + length c div 2) = s ! i)
       [0..<length c div 2]"

definition angle_tables :: "tensor3 \<Rightarrow> tensor3 \<Rightarrow> bool" where
  "angle_tables cos_t sin_t \<longleftrightarrow>
     length sin_t = length cos_t \<and>
     list_all (\<lambda>(cb, sb). length sb = length cb \<and> list_all (\<lambda>(c, s). angle_vec c s) (zip cb sb))
       (zip cos_t sin_t)"

definition negate_table :: "tensor3 \<Rightarrow> tensor3" where
  "negate_table sin_t = map (map (map uminus)) sin_t"

text \<open>
  Used to state the results: \<open>expand_as x z\<close> is \<open>x\<close> with the batch, head and sequence
  axes of \<open>z\<close>, an axis on which \<open>x\<close> has size 1 being repeated along the axis of \<open>z\<close>
  (as \<^verbatim>\<open>x.expand_as(z)\<close> does; the vectors are those of \<open>x\<close>); \<open>shape_of\<close> is the shape of
  a tensor, as the widths of its vectors.
\<close>

definition expand_level :: "('a \<Rightarrow> 'b \<Rightarrow> 'a) \<Rightarrow> 'a list \<Rightarrow> 'b list \<Rightarrow> 'a list" where
  "expand_level e x z = map (\<lambda>i. e (x ! broadcast_index (length x) i) (z ! i)) [0..<length z]"

definition expand_as :: "tensor4 \<Rightarrow> tensor4 \<Rightarrow> tensor4" where
  "expand_as = expand_level (expand_level (expand_level (\<lambda>xv zv. xv)))"

definition shape_of :: "tensor4 \<Rightarrow> nat list list list" where
  "shape_of x = map (map (map length)) x"

subsection \<open>Latent attention (\<^verbatim>\<open>DeepseekV3Attention\<close>)\<close>

text \<open>\<^verbatim>\<open>nn.Linear\<close>: a weight of one row per output feature and an optional bias.\<close>

record linear_layer =
  lin_weight :: tensor2
  lin_bias :: "vec option"

definition nn_linear :: "linear_layer \<Rightarrow> vec \<Rightarrow> vec" where
  "nn_linear l x =
     (case lin_bias l of
        None \<Rightarrow> linear_row (lin_weight l) x
      | Some b \<Rightarrow> map2 (+) (linear_row (lin_weight l) x) b)"

text \<open>The layer maps vectors of width \<open>n_in\<close> to width \<open>n_out\<close>; on other widths it raises.\<close>

definition linear_shape :: "linear_layer \<Rightarrow> nat \<Rightarrow> nat \<Rightarrow> bool" where
  "linear_shape l n_in n_out \<longleftrightarrow>
     length (lin_weight l) = n_out \<and> list_all (\<lambda>w. length w = n_in) (lin_weight l) \<and>
     (case lin_bias l of None \<Rightarrow> True | Some b \<Rightarrow> length b = n_out)"

text \<open>
  The module after \<^verbatim>\<open>__init__\<close>: the attributes read from the configuration, the
  projections, and the two normalisation layers, which are Llama's RMSNorm (not among the
  sources) and are taken as functions on a vector. \<open>attn_hidden_size\<close> is
  \<^verbatim>\<open>config.hidden_size\<close>, \<open>attn_implementation\<close> is \<^verbatim>\<open>config._attn_implementation\<close>.
\<close>

record attention =
  attn_hidden_size :: nat
  num_heads :: nat
  q_lora_rank :: nat
  qk_rope_head_dim :: nat
  kv_lora_rank :: nat
  v_head_dim :: nat
  qk_nope_head_dim :: nat
  q_head_dim :: nat
  attn_implementation :: string
  attention_dropout :: real
  training :: bool
  scaling :: real
  q_a_proj :: linear_layer
  q_a_layernorm :: "vec \<Rightarrow> vec"
  q_b_proj :: linear_layer
  kv_a_proj_with_mqa :: linear_layer
  kv_a_layernorm :: "vec \<Rightarrow> vec"
  kv_b_proj :: linear_layer
  o_proj :: linear_layer

text \<open>
  \<^verbatim>\<open>x.view(*input_shape, num_heads, -1).transpose(1, 2)\<close>: every vector is cut into
  \<open>num_heads\<close> pieces, and the head axis moves before the sequence axis.
\<close>

definition view_heads :: "nat \<Rightarrow> tensor3 \<Rightarrow> tensor4" where
  "view_heads n x = map (map (\<lambda>v. view_groups n (length v div n) v)) x"

definition transpose_1_2 :: "nat \<Rightarrow> tensor4 \<Rightarrow> tensor4" where
  "transpose_1_2 n x = map (\<lambda>xb. map (\<lambda>h. map (\<lambda>xs. xs ! h) xb) [0..<n]) x"

text \<open>\<^verbatim>\<open>torch.split(x, [n, m], dim=-1)\<close>, where \<open>n + m\<close> is the last dimension.\<close>

definition split_last :: "nat \<Rightarrow> 'a list list list list \<Rightarrow>
    'a list list list list \<times> 'a list list list list" where
  "split_last n x = (map (map (map (take n))) x, map (map (map (drop n))) x)"

text \<open>The projected queries and the projected keys and values, per head (lines 282 and 288).\<close>

definition attn_q_proj :: "attention \<Rightarrow> tensor3 \<Rightarrow> tensor3" where
  "attn_q_proj m hidden_states =
     map (map (\<lambda>x. nn_linear (q_b_proj m) (q_a_layernorm m (nn_linear (q_a_proj m) x))))
       hidden_states"

definition attn_q :: "attention \<Rightarrow> tensor3 \<Rightarrow> tensor4" where
  "attn_q m hidden_states =
     transpose_1_2 (num_heads m) (view_heads (num_heads m) (attn_q_proj m hidden_states))"

definition attn_compressed_kv :: "attention \<Rightarrow> tensor3 \<Rightarrow> tensor3" where
  "attn_compressed_kv m hidden_states = map (map (nn_linear (kv_a_proj_with_mqa m))) hidden_states"

text \<open>
  \<^verbatim>\<open>k_pe\<close> before the rotation (lines 285 to 287): the channels after \<open>kv_lora_rank\<close> of
  the compressed projection, with a head axis of size 1.
\<close>

definition attn_k_pe :: "attention \<Rightarrow> tensor3 \<Rightarrow> tensor4" where
  "attn_k_pe m hidden_states =
     map (\<lambda>kb. [kb]) (map (map (drop (kv_lora_rank m))) (attn_compressed_kv m hidden_states))"

definition attn_kv_proj :: "attention \<Rightarrow> tensor3 \<Rightarrow> tensor3" where
  "attn_kv_proj m hidden_states =
     map (map (\<lambda>x. nn_linear (kv_b_proj m) (kv_a_layernorm m (take (kv_lora_rank m) x))))
       (attn_compressed_kv m hidden_states)"

definition attn_kv :: "attention \<Rightarrow> tensor3 \<Rightarrow> tensor4" where
  "attn_kv m hidden_states =
     transpose_1_2 (num_heads m) (view_heads (num_heads m) (attn_kv_proj m hidden_states))"

text \<open>
  \<^verbatim>\<open>k_pe.new_empty(batch_size, num_heads, seq_length, q_head_dim)\<close>: the contents of the
  fresh tensor are arbitrary; \<open>uninit\<close> stands for them.
\<close>

definition new_empty :: "tensor3 \<Rightarrow> nat \<Rightarrow> nat \<Rightarrow> real \<Rightarrow> tensor4" where
  "new_empty hidden_states n d uninit =
     map (\<lambda>xb. replicate n (replicate (length xb) (replicate d uninit))) hidden_states"

text \<open>
  \<^verbatim>\<open>dst[:, :, :, lo:hi] = src\<close>: the slice ends at the width of the destination when \<open>hi\<close>
  is beyond it; the source is broadcast to the shape of the slice, so every axis of the
  source has the size of the slice's axis or size 1, otherwise the assignment raises.
\<close>

definition assign_vec :: "nat \<Rightarrow> nat \<Rightarrow> vec \<Rightarrow> vec \<Rightarrow> vec option" where
  "assign_vec lo hi dv sv =
     (let w = min hi (length dv) - min lo (length dv)
      in if length sv = w \<or> length sv = 1
         then Some (take lo dv @ map (\<lambda>i. sv ! broadcast_index (length sv) i) [0..<w] @ drop hi dv)
         else None)"

definition assign_level :: "('a \<Rightarrow> 'b \<Rightarrow> 'a option) \<Rightarrow> 'a list \<Rightarrow> 'b list \<Rightarrow> 'a list option" where
  "assign_level g dst src =
     (if length src = length dst \<or> length src = 1
      then those (map (\<lambda>i. g (dst ! i) (src ! broadcast_index (length src) i)) [0..<length dst])
      else None)"

definition assign_last :: "nat \<Rightarrow> nat \<Rightarrow> tensor4 \<Rightarrow> tensor4 \<Rightarrow> tensor4 option" where
  "assign_last lo hi = assign_level (assign_level (assign_level (assign_vec lo hi)))"

text \<open>
  \<^verbatim>\<open>F.pad(value_states, [0, q_head_dim - v_head_dim])\<close>: zeros are appended to the last
  dimension; a negative amount removes entries from its end.
\<close>

definition pad_last :: "nat \<Rightarrow> nat \<Rightarrow> tensor4 \<Rightarrow> tensor4" where
  "pad_last q v x =
     (if v \<le> q then map (map (map (\<lambda>xv. xv @ replicate (q - v) 0))) x
      else map (map (map (\<lambda>xv. take (length xv - (v - q)) xv))) x)"

text \<open>
  The shapes on which the lines up to the rotary embedding do not raise: the input and
  the layers fit each other, there is at least one head, the projections have the widths
  \<^verbatim>\<open>__init__\<close> gives them, and both \<^verbatim>\<open>torch.split\<close> get sizes that sum to the last
  dimension, that is \<open>q_head_dim = qk_nope_head_dim + qk_rope_head_dim\<close>.
\<close>

definition attn_shapes_ok :: "attention \<Rightarrow> tensor3 \<Rightarrow> bool" where
  "attn_shapes_ok m hidden_states \<longleftrightarrow>
     0 < num_heads m \<and>
     q_head_dim m = qk_nope_head_dim m + qk_rope_head_dim m \<and>
     linear_shape (q_a_proj m) (attn_hidden_size m) (q_lora_rank m) \<and>
     linear_shape (q_b_proj m) (q_lora_rank m) (num_heads m * q_head_dim m) \<and>
     linear_shape (kv_a_proj_with_mqa m) (attn_hidden_size m)
       (kv_lora_rank m + qk_rope_head_dim m) \<and>
     linear_shape (kv_b_proj m) (kv_lora_rank m)
       (num_heads m * (q_head_dim m - qk_rope_head_dim m + v_head_dim m)) \<and>
     linear_shape (o_proj m) (num_heads m * v_head_dim m) (attn_hidden_size m) \<and>
     list_all (list_all (\<lambda>x.
         length x = attn_hidden_size m \<and>
         length (q_a_layernorm m (nn_linear (q_a_proj m) x)) = q_lora_rank m \<and>
         length (kv_a_layernorm m (take (kv_lora_rank m) (nn_linear (kv_a_proj_with_mqa m) x)))
           = kv_lora_rank m))
       hidden_states"

text \<open>
  \<^verbatim>\<open>DeepseekV3Attention.forward\<close> up to the padding of the values: the query, key and
  value states as they stand before the cache update and the kernel call.
\<close>

definition attn_states ::
  "attention \<Rightarrow> real \<Rightarrow> tensor3 \<Rightarrow> tensor3 \<Rightarrow> tensor3 \<Rightarrow> (tensor4 \<times> tensor4 \<times> tensor4) option" where
  "attn_states m uninit hidden_states cos_t sin_t =
     (if \<not> attn_shapes_ok m hidden_states then None
      else
        let q = attn_q m hidden_states;
            (q_nope, q_pe) = split_last (qk_nope_head_dim m) q;
            k_pe = attn_k_pe m hidden_states;
            kv = attn_kv m hidden_states;
            (k_nope, value_states) = split_last (qk_nope_head_dim m) kv
        in case apply_rotary_pos_emb q_pe k_pe cos_t sin_t of
             None \<Rightarrow> None
           | Some (q_pe, k_pe) \<Rightarrow>
               let query_states = new_empty hidden_states (num_heads m) (q_head_dim m) uninit
               in case assign_last 0 (qk_nope_head_dim m) query_states q_nope of
                    None \<Rightarrow> None
                  | Some query_states \<Rightarrow>
               case assign_last (qk_nope_head_dim m) (q_head_dim m) query_states q_pe of
                    None \<Rightarrow> None
                  | Some query_states \<Rightarrow>
               let key_states = new_empty hidden_states (num_heads m) (q_head_dim m) uninit
               in case assign_last 0 (qk_nope_head_dim m) key_states k_nope of
                    None \<Rightarrow> None
                  | Some key_states \<Rightarrow>
               case assign_last (qk_nope_head_dim m) (q_head_dim m) key_states k_pe of
                    None \<Rightarrow> None
                  | Some key_states \<Rightarrow>
                      let value_states =
                            (if attn_implementation m = ''flash_attention_2'' \<and>
                                q_head_dim m \<noteq> v_head_dim m
                             then pad_last (q_head_dim m) (v_head_dim m) value_states
                             else value_states)
                      in Some (query_states, key_states, value_states))"

text \<open>
  The rest of \<^verbatim>\<open>forward\<close>. The cache and the attention kernels are collaborators
  outside the sources: \<open>past_key_value\<close> is \<open>None\<close> or the cache's update of the key and
  value states for this layer, \<open>eager_attention_forward\<close> is the reference kernel and
  \<open>ALL_ATTENTION_FUNCTIONS\<close> the table of the others, looked up by the configured
  name (a missing name raises KeyError). A kernel returns the attention output, laid out
  as \<open>[batch, seq, heads, dim]\<close>, and the attention weights or \<open>None\<close>.
\<close>

type_synonym attention_kernel =
  "tensor4 \<Rightarrow> tensor4 \<Rightarrow> tensor4 \<Rightarrow> tensor4 option \<Rightarrow> real \<Rightarrow> real \<Rightarrow> tensor4 \<times> tensor4 option"

definition attn_heads_output ::
  "attention \<Rightarrow> real \<Rightarrow> tensor3 \<Rightarrow> tensor3 \<Rightarrow> tensor3 \<Rightarrow> tensor4 option \<Rightarrow>
   (tensor4 \<Rightarrow> tensor4 \<Rightarrow> tensor4 \<times> tensor4) option \<Rightarrow> bool \<Rightarrow>
   attention_kernel \<Rightarrow> (string \<rightharpoonup> attention_kernel) \<Rightarrow> (tensor4 \<times> tensor4 option) option" where
  "attn_heads_output m uninit hidden_states cos_t sin_t attention_mask past_key_value
     output_attentions eager_attention_forward ALL_ATTENTION_FUNCTIONS =
     (case attn_states m uninit hidden_states cos_t sin_t of
        None \<Rightarrow> None
      | Some (query_states, key_states, value_states) \<Rightarrow>
          let (key_states, value_states) =
                (case past_key_value of
                   None \<Rightarrow> (key_states, value_states)
                 | Some update \<Rightarrow> update key_states value_states)
          in case (if attn_implementation m \<noteq> ''eager''
                   then if attn_implementation m = ''sdpa'' \<and> output_attentions
                        then Some eager_attention_forward
                        else ALL_ATTENTION_FUNCTIONS (attn_implementation m)
                   else Some eager_attention_forward) of
               None \<Rightarrow> None
             | Some attention_interface \<Rightarrow>
                 let (attn_output, attn_weights) =
                       attention_interface query_states key_states value_states attention_mask
                         (if \<not> training m then 0 else attention_dropout m) (scaling m);
                     attn_output =
                       (if attn_implementation m = ''flash_attention_2'' \<and>
                           q_head_dim m \<noteq> v_head_dim m
                        then map (map (map (take (v_head_dim m)))) attn_output
                        else attn_output)
                 in Some (attn_output, attn_weights))"

text \<open>
  \<^verbatim>\<open>attn_output.reshape(*input_shape, -1)\<close> joins the heads of every position; \<^verbatim>\<open>o_proj\<close>
  raises unless the joined width is its input width.
\<close>

definition attn_reshape :: "tensor4 \<Rightarrow> tensor3" where
  "attn_reshape attn_output = map (map concat) attn_output"

definition DeepseekV3Attention_forward ::
  "attention \<Rightarrow> real \<Rightarrow> tensor3 \<Rightarrow> tensor3 \<Rightarrow> tensor3 \<Rightarrow> tensor4 option \<Rightarrow>
   (tensor4 \<Rightarrow> tensor4 \<Rightarrow> tensor4 \<times> tensor4) option \<Rightarrow> bool \<Rightarrow>
   attention_kernel \<Rightarrow> (string \<rightharpoonup> attention_kernel) \<Rightarrow> (tensor3 \<times> tensor4 option) option" where
  "DeepseekV3Attention_forward m uninit hidden_states cos_t sin_t attention_mask past_key_value
     output_attentions eager_attention_forward ALL_ATTENTION_FUNCTIONS =
     (case attn_heads_output m uninit hidden_states cos_t sin_t attention_mask past_key_value
             output_attentions eager_attention_forward ALL_ATTENTION_FUNCTIONS of
        None \<Rightarrow> None
      | Some (attn_output, attn_weights) \<Rightarrow>
          let attn_output = attn_reshape attn_output
          in if list_all (list_all (\<lambda>x. length x = num_heads m * v_head_dim m)) attn_output
             then Some (map (map (nn_linear (o_proj m))) attn_output, attn_weights)
             else None)"

text \<open>
  What the theorems ask of the collaborators: a kernel's output has the last dimension of
  the values it is given, and a cache update returns values of the last dimension it is
  given.
\<close>

definition last_dim_is :: "nat \<Rightarrow> tensor4 \<Rightarrow> bool" where
  "last_dim_is n x = list_all (list_all (list_all (\<lambda>xv. length xv = n))) x"

definition kernel_keeps_last_dim :: "attention_kernel \<Rightarrow> bool" where
  "kernel_keeps_last_dim kern \<longleftrightarrow>
     (\<forall>q k v attention_mask dropout sc n.
        last_dim_is n v \<longrightarrow> last_dim_is n (fst (kern q k v attention_mask dropout sc)))"

definition cache_keeps_last_dim :: "(tensor4 \<Rightarrow> tensor4 \<Rightarrow> tensor4 \<times> tensor4) option \<Rightarrow> bool" where
  "cache_keeps_last_dim past_key_value \<longleftrightarrow>
     (case past_key_value of
        None \<Rightarrow> True
      | Some update \<Rightarrow> \<forall>k v n. last_dim_is n v \<longrightarrow> last_dim_is n (snd (update k v)))"

subsection \<open>The experts (\<^verbatim>\<open>DeepseekV3MLP\<close>)\<close>

text \<open>
  The three projections have no bias; \<open>act_fn\<close> is the entry of \<^verbatim>\<open>ACT2FN\<close> (not among
  the sources) that the configuration names, an activation applied to every entry.
\<close>

record mlp =
  gate_proj :: linear_layer
  up_proj :: linear_layer
  down_proj :: linear_layer
  act_fn :: "real \<Rightarrow> real"

text \<open>\<^verbatim>\<open>DeepseekV3MLP.forward\<close> on one row, and on a batch of rows.\<close>

definition mlp_row :: "mlp \<Rightarrow> vec \<Rightarrow> vec" where
  "mlp_row m x =
     nn_linear (down_proj m)
       (map2 (*) (map (act_fn m) (nn_linear (gate_proj m) x)) (nn_linear (up_proj m) x))"

definition mlp_forward :: "mlp \<Rightarrow> tensor2 \<Rightarrow> tensor2" where
  "mlp_forward m x = map (mlp_row m) x"

definition mlp_shape :: "mlp \<Rightarrow> nat \<Rightarrow> bool" where
  "mlp_shape m n \<longleftrightarrow>
     (let intermediate_size = length (lin_weight (gate_proj m))
      in linear_shape (gate_proj m) n intermediate_size \<and> lin_bias (gate_proj m) = None \<and>
         linear_shape (up_proj m) n intermediate_size \<and> lin_bias (up_proj m) = None \<and>
         linear_shape (down_proj m) intermediate_size n \<and> lin_bias (down_proj m) = None)"

subsection \<open>Expert dispatch (\<^verbatim>\<open>DeepseekV3MoE\<close>)\<close>

text \<open>
  \<^verbatim>\<open>expert_counts.scatter_(1, topk_indices, 1)\<close> and \<^verbatim>\<open>expert_counts.sum(dim=0)\<close>: a
  token counts once for every expert among its indices.
\<close>

definition tokens_per_expert :: "nat \<Rightarrow> nat list list \<Rightarrow> nat list" where
  "tokens_per_expert num_experts topk_indices =
     (let expert_counts = map (scatter_ones num_experts) topk_indices
      in map (\<lambda>e. sum_list (map (\<lambda>row. row ! e) expert_counts)) [0..<num_experts])"

text \<open>
  \<^verbatim>\<open>t.argsort()\<close>: the positions of \<open>t\<close> in ascending order of their entries. torch leaves
  the order among equal entries open unless \<^verbatim>\<open>stable=True\<close>; the model keeps them in
  their order of occurrence.
\<close>

definition argsort :: "nat list \<Rightarrow> nat list" where
  "argsort xs = sort_key (\<lambda>i. xs ! i) [0..<length xs]"

text \<open>The loop over \<^verbatim>\<open>enumerate(tokens_per_expert)\<close>, with its two variables.\<close>

fun dispatch_loop :: "mlp list \<Rightarrow> tensor2 \<Rightarrow> (nat \<times> nat) list \<Rightarrow> nat \<Rightarrow> tensor2 list \<Rightarrow>
    tensor2 list" where
  "dispatch_loop experts sorted_tokens [] current_pos expert_outputs = expert_outputs"
| "dispatch_loop experts sorted_tokens ((expert_idx, num_tokens) # rest) current_pos
     expert_outputs =
     (if num_tokens = 0
      then dispatch_loop experts sorted_tokens rest current_pos expert_outputs
      else
        let next_pos = current_pos + num_tokens;
            expert = experts ! expert_idx;
            expert_tokens = take (next_pos - current_pos) (drop current_pos sorted_tokens)
        in dispatch_loop experts sorted_tokens rest next_pos
             (expert_outputs @ [mlp_forward expert expert_tokens]))"

text \<open>\<^verbatim>\<open>dst[idx] = src\<close> for a tensor of positions \<open>idx\<close>: row \<open>i\<close> of \<open>src\<close> goes to row \<open>idx[i]\<close>.\<close>

definition index_put :: "'a list \<Rightarrow> nat list \<Rightarrow> 'a list \<Rightarrow> 'a list" where
  "index_put dst idx src = foldl (\<lambda>r (i, x). r[i := x]) dst (zip idx src)"

text \<open>
  \<^verbatim>\<open>torch.matmul(w.unsqueeze(1), r).sum(dim=1)\<close> for one token: the row of \<open>num_topk\<close>
  weights times the \<open>num_topk\<close> rows of width \<open>n\<close>.
\<close>

definition weighted_sum :: "nat \<Rightarrow> vec \<Rightarrow> tensor2 \<Rightarrow> vec" where
  "weighted_sum n ws rs = map (\<lambda>c. sum_list (map2 (\<lambda>w r. w * r ! c) ws rs)) [0..<n]"

text \<open>
  The shapes on which \<^verbatim>\<open>moe_infer\<close> does not raise: there is a token and a slot (the
  \<^verbatim>\<open>view(batch_size, num_topk, -1)\<close> of an empty tensor is ambiguous), the indices and
  weights are \<open>[batch_size, num_topk]\<close>, there is a row of hidden states for every token,
  all of one width, every index names an expert (\<^verbatim>\<open>scatter_\<close>), and the experts that
  are given tokens take rows of that width.
\<close>

definition moe_infer_shapes_ok ::
  "mlp list \<Rightarrow> tensor2 \<Rightarrow> nat list list \<Rightarrow> tensor2 \<Rightarrow> bool" where
  "moe_infer_shapes_ok experts hidden_states topk_indices topk_weights \<longleftrightarrow>
     topk_indices \<noteq> [] \<and> topk_indices ! 0 \<noteq> [] \<and> hidden_states \<noteq> [] \<and>
     list_all (\<lambda>row. length row = length (topk_indices ! 0)) topk_indices \<and>
     length topk_weights = length topk_indices \<and>
     list_all (\<lambda>row. length row = length (topk_indices ! 0)) topk_weights \<and>
     length topk_indices \<le> length hidden_states \<and>
     list_all (\<lambda>x. length x = length (hidden_states ! 0)) hidden_states \<and>
     list_all (list_all (\<lambda>e. e < length experts \<and>
         mlp_shape (experts ! e) (length (hidden_states ! 0)))) topk_indices"

text \<open>
  \<^verbatim>\<open>moe_infer\<close> up to the reordered outputs. \<open>uninit\<close> stands for the contents of
  \<^verbatim>\<open>torch.empty_like\<close>. The assignment through \<^verbatim>\<open>sorted_indices\<close> raises unless there
  is one row of expert output for every sorted index.
\<close>

definition moe_reordered ::
  "mlp list \<Rightarrow> real \<Rightarrow> tensor2 \<Rightarrow> nat list list \<Rightarrow> tensor2 \<Rightarrow> tensor2 option" where
  "moe_reordered experts uninit hidden_states topk_indices topk_weights =
     (if \<not> moe_infer_shapes_ok experts hidden_states topk_indices topk_weights then None
      else
        let num_experts = length experts;
            num_topk = length (topk_indices ! 0);
            tokens_per_expert = tokens_per_expert num_experts topk_indices;
            sorted_indices = argsort (concat topk_indices);
            sorted_tokens = map (\<lambda>i. hidden_states ! (i div num_topk)) sorted_indices;
            expert_outputs =
              dispatch_loop experts sorted_tokens (zip [0..<num_experts] tokens_per_expert) 0 [];
            expert_outputs = concat expert_outputs
        in if length expert_outputs \<noteq> length sorted_indices then None
           else
             let reordered_outputs =
                   replicate (length expert_outputs)
                     (replicate (length (hidden_states ! 0)) uninit)
             in Some (index_put reordered_outputs sorted_indices expert_outputs))"

definition moe_infer ::
  "mlp list \<Rightarrow> real \<Rightarrow> tensor2 \<Rightarrow> nat list list \<Rightarrow> tensor2 \<Rightarrow> tensor2 option" where
  "moe_infer experts uninit hidden_states topk_indices topk_weights =
     (case moe_reordered experts uninit hidden_states topk_indices topk_weights of
        None \<Rightarrow> None
      | Some reordered_outputs \<Rightarrow>
          let batch_size = length topk_indices;
              num_topk = length (topk_indices ! 0);
              reordered_outputs = view_groups batch_size num_topk reordered_outputs;
              moe_output =
                map2 (weighted_sum (length (hidden_states ! 0))) topk_weights reordered_outputs
          in Some moe_output)"

text \<open>\<^verbatim>\<open>y.view(*orig_shape)\<close>: the rows of \<open>y\<close>, cut as the batches of the original are.\<close>

fun view_as :: "'b list list \<Rightarrow> 'a list \<Rightarrow> 'a list list" where
  "view_as [] y = []"
| "view_as (xb # orig) y = take (length xb) y # view_as orig (drop (length xb) y)"

text \<open>
  The module: the routed experts, the gate with its parameters, and the shared expert.
\<close>

record moe =
  experts :: "mlp list"
  gate_cfg :: gate_config
  gate_weight :: tensor2
  gate_bias :: vec
  shared_experts :: mlp

text \<open>\<^verbatim>\<open>DeepseekV3MoE.forward\<close>\<close>

definition DeepseekV3MoE_forward :: "moe \<Rightarrow> real \<Rightarrow> tensor3 \<Rightarrow> tensor3 option" where
  "DeepseekV3MoE_forward m uninit hidden_states =
     (let identity = hidden_states
      in case MoEGate_forward (gate_cfg m) (gate_weight m) (gate_bias m) hidden_states of
           None \<Rightarrow> None
         | Some (topk_indices, topk_weights) \<Rightarrow>
             if \<not> mlp_shape (shared_experts m) (hidden_size (gate_cfg m)) then None
             else
               let hidden_states = concat hidden_states
               in case moe_infer (experts m) uninit hidden_states topk_indices topk_weights of
                    None \<Rightarrow> None
                  | Some y \<Rightarrow>
                      let y = view_as identity y;
                          y = map2 (map2 (map2 (+))) y
                                (map (mlp_forward (shared_experts m)) identity)
                      in Some y)"

subsection \<open>A small gate\<close>

text \<open>
  Four experts in two groups of two, one group and two experts selected per token; the
  gate's weight is zero, so every sigmoid score is one half and the correction bias alone
  decides the selection.
\<close>

definition ex_cfg :: gate_config where
  "ex_cfg = \<lparr>hidden_size = 1, top_k = 2, n_routed_experts = 4,
     routed_scaling_factor = 5 / 2, n_group = 2, topk_group = 1, norm_topk_prob = True\<rparr>"

definition ex_weight :: tensor2 where
  "ex_weight = [[0], [0], [0], [0]]"

definition ex_hidden :: tensor3 where
  "ex_hidden = [[[1], [2]]]"

text \<open>A gate weight that gives every expert the logit \<open>-200\<close> on the hidden state \<open>[1]\<close>.\<close>

definition ex_weight_low :: tensor2 where
  "ex_weight_low = [[- 200], [- 200], [- 200], [- 200]]"

subsection \<open>A small attention module\<close>

text \<open>
  Two heads with one content channel, two positional channels and one value channel each,
  on hidden states of width one; the normalisation layers are the identity.
\<close>

definition ex_attention :: attention where
  "ex_attention = \<lparr>attn_hidden_size = 1, num_heads = 2, q_lora_rank = 1, qk_rope_head_dim = 2,
     kv_lora_rank = 1, v_head_dim = 1, qk_nope_head_dim = 1, q_head_dim = 3,
     attn_implementation = ''flash_attention_2'', attention_dropout = 0, training = False,
     scaling = 1,
     q_a_proj = \<lparr>lin_weight = [[1]], lin_bias = None\<rparr>,
     q_a_layernorm = (\<lambda>x. x),
     q_b_proj = \<lparr>lin_weight = [[1], [2], [3], [4], [5], [6]], lin_bias = None\<rparr>,
     kv_a_proj_with_mqa = \<lparr>lin_weight = [[1], [7], [8]], lin_bias = None\<rparr>,
     kv_a_layernorm = (\<lambda>x. x),
     kv_b_proj = \<lparr>lin_weight = [[10], [20], [30], [40]], lin_bias = None\<rparr>,
     o_proj = \<lparr>lin_weight = [[1, 1]], lin_bias = None\<rparr>\<rparr>"

text \<open>A kernel in which every position attends to itself alone: its output is the value.\<close>

definition ex_kernel :: attention_kernel where
  "ex_kernel q k v attention_mask dropout sc = (map transpose v, None)"

subsection \<open>A small mixture of experts\<close>

text \<open>
  The small gate, without the normalisation of the weights, with four experts on rows of
  width one; expert \<open>e\<close> maps \<open>[x]\<close> to
  \<open>[(e + 1) * relu x * x]\<close>, the shared expert maps it to \<open>[100 * relu x * x]\<close>.
\<close>

definition ex_mlp :: "real \<Rightarrow> mlp" where
  "ex_mlp d = \<lparr>gate_proj = \<lparr>lin_weight = [[1]], lin_bias = None\<rparr>,
     up_proj = \<lparr>lin_weight = [[1]], lin_bias = None\<rparr>,
     down_proj = \<lparr>lin_weight = [[d]], lin_bias = None\<rparr>,
     act_fn = (\<lambda>x. max 0 x)\<rparr>"

definition ex_moe :: "vec \<Rightarrow> moe" where
  "ex_moe bias = \<lparr>experts = [ex_mlp 1, ex_mlp 2, ex_mlp 3, ex_mlp 4],
     gate_cfg = ex_cfg\<lparr>norm_topk_prob := False\<rparr>, gate_weight = ex_weight, gate_bias = bias,
     shared_experts = ex_mlp 100\<rparr>"

section \<open>The attention scaling factor\<close>

text \<open>
  C8. The attention scaling factor is \<open>q_head_dim\<close> to the power \<open>-0.5\<close> when
  \<open>rope_scaling\<close> is unset; when the rotary scaling configuration requests the correction
  (it has a factor and a non-zero \<open>mscale_all_dim\<close>) it is that value times the square of
  \<open>mscale\<close>, where \<open>mscale\<close> is 1 for a factor of at most 1 and
  \<open>0.1 * mscale_all_dim * ln factor + 1\<close> otherwise.
\<close>

theorem attention_scaling_formula:
  assumes "0 < d"
  shows "attention_scaling d None = Inr (real d powr (- 0.5)) \<and>
         (rs ''factor'' = Some f \<and> rs ''mscale_all_dim'' = Some m \<and> m \<noteq> 0 \<longrightarrow>
          attention_scaling d (Some rs) =
            Inr (real d powr (- 0.5)
                 * (if f \<le> 1 then 1 else 0.1 * m * ln f + 1)\<^sup>2))"
  using assms
  by (simp add: attention_scaling_def yarn_get_mscale_def power2_eq_square Let_def)

theorem attention_scaling_formula_witness:
  "attention_scaling 4 None = Inr (4 powr (- 0.5)) \<and>
   attention_scaling 4 (Some [''factor'' \<mapsto> 4, ''mscale_all_dim'' \<mapsto> 1]) =
     Inr (4 powr (- 0.5) * (0.1 * ln 4 + 1)\<^sup>2)"
  using attention_scaling_formula [of 4 "[''factor'' \<mapsto> 4, ''mscale_all_dim'' \<mapsto> 1]" 4 1]
  by simp


section \<open>The gate\<close>

subsection \<open>What the gate uses of \<^verbatim>\<open>topk\<close>\<close>

lemma topk_fst: "fst (topk xs k) = map (\<lambda>i. xs ! i) (snd (topk xs k))"
  by (simp add: topk_def Let_def)

lemma topk_length: "length (snd (topk xs k)) = min k (length xs)"
  by (simp add: topk_def Let_def min.commute)

lemma topk_distinct: "distinct (snd (topk xs k))"
  by (simp add: topk_def Let_def distinct_take)

lemma topk_set: "set (snd (topk xs k)) \<subseteq> {..<length xs}"
proof -
  have "set (take k (sort_key (\<lambda>i. - (xs ! i)) [0..<length xs])) \<subseteq> set [0..<length xs]"
    using set_take_subset [of k "sort_key (\<lambda>i. - (xs ! i)) [0..<length xs]"] by simp
  then show ?thesis by (auto simp: topk_def Let_def)
qed

lemma topk_maximal:
  assumes i: "i \<in> set (snd (topk xs k))" and j: "j < length xs" "j \<notin> set (snd (topk xs k))"
  shows "xs ! j \<le> xs ! i"
proof -
  define L where "L = sort_key (\<lambda>i. - (xs ! i)) [0..<length xs]"
  have idx: "snd (topk xs k) = take k L" by (simp add: topk_def L_def Let_def)
  have srt: "sorted (map (\<lambda>i. - (xs ! i)) L)" unfolding L_def by (rule sorted_sort_key)
  have setL: "set L = {..<length xs}" unfolding L_def by auto
  from i idx obtain a where a: "a < k" "a < length L" "L ! a = i"
    by (auto simp: in_set_conv_nth)
  from j(1) setL have "j \<in> set L" by simp
  then obtain b where b: "b < length L" "L ! b = j"
    by (auto simp: in_set_conv_nth)
  have "k \<le> b"
  proof (rule ccontr)
    assume "\<not> k \<le> b"
    then have "L ! b \<in> set (take k L)" using b(1) by (auto simp: in_set_conv_nth)
    with j(2) idx b(2) show False by simp
  qed
  with a have "a \<le> b" by simp
  with srt b(1) have "map (\<lambda>i. - (xs ! i)) L ! a \<le> map (\<lambda>i. - (xs ! i)) L ! b"
    by (simp add: sorted_iff_nth_mono)
  with a b show ?thesis by simp
qed

subsection \<open>Shapes and entries of the intermediate rows\<close>

lemma MoEGate_scores_length: "length (MoEGate_scores weight hs) = length (concat hs)"
  by (simp add: MoEGate_scores_def)

lemma MoEGate_scores_nth:
  "t < length (concat hs) \<Longrightarrow>
   MoEGate_scores weight hs ! t = map (\<lambda>w. sigmoid (dot w (concat hs ! t))) weight"
  by (simp add: MoEGate_scores_def linear_row_def)

lemma MoEGate_forward_rows:
  assumes "MoEGate_forward cfg weight bias hs = Some (topk_indices, topk_weights)"
  shows "gate_shapes_ok cfg weight bias hs"
    and "length topk_indices = length (concat hs)"
    and "length topk_weights = length (concat hs)"
    and "t < length (concat hs) \<Longrightarrow>
         topk_indices ! t = gate_topk_indices cfg bias (MoEGate_scores weight hs ! t)"
    and "t < length (concat hs) \<Longrightarrow>
         topk_weights ! t = gate_topk_weights cfg (MoEGate_scores weight hs ! t) (topk_indices ! t)"
  using assms
  by (auto simp: MoEGate_forward_def Let_def MoEGate_scores_length split: if_splits)

lemma scatter_ones_aux:
  "length (foldl (\<lambda>m i. m[i := (1 :: 'a :: zero_neq_one)]) m idx) = length m \<and>
   (\<forall>g < length m. foldl (\<lambda>m i. m[i := 1]) m idx ! g = (if g \<in> set idx then 1 else m ! g))"
proof (induction idx arbitrary: m)
  case Nil
  show ?case by simp
next
  case (Cons i idx)
  show ?case using Cons.IH [of "m[i := 1]"] by (auto simp: nth_list_update)
qed

lemma scatter_ones_length: "length (scatter_ones n idx :: 'a :: zero_neq_one list) = n"
  using scatter_ones_aux [of "replicate n (0 :: 'a)" idx] by (simp add: scatter_ones_def)

lemma scatter_ones_nth:
  "g < n \<Longrightarrow> scatter_ones n idx ! g = (if g \<in> set idx then 1 else (0 :: 'a :: zero_neq_one))"
  using scatter_ones_aux [of "replicate n (0 :: 'a)" idx] by (simp add: scatter_ones_def)

lemma concat_replicate_length:
  "length (concat (map (replicate sz) xs)) = length xs * sz"
  by (induction xs) auto

lemma concat_replicate_nth:
  "i < length xs * sz \<Longrightarrow> concat (map (replicate sz) xs) ! i = xs ! (i div sz)"
proof (induction xs arbitrary: i)
  case Nil
  then show ?case by simp
next
  case (Cons x xs)
  show ?case
  proof (cases "i < sz")
    case True
    then show ?thesis by (simp add: nth_append)
  next
    case False
    then have "sz \<le> i" by simp
    moreover from this Cons.prems have "i - sz < length xs * sz" by simp
    moreover have "0 < sz" using Cons.prems by (cases sz) auto
    then have "i div sz = Suc ((i - sz) div sz)" using \<open>sz \<le> i\<close> by (rule le_div_geq)
    ultimately show ?thesis using Cons.IH [of "i - sz"] False
      by (simp add: nth_append)
  qed
qed

lemma gate_score_mask_length:
  assumes "n_routed_experts cfg mod n_group cfg = 0"
  shows "length (gate_score_mask cfg sfc) = n_routed_experts cfg"
  using assms
  by (simp add: gate_score_mask_def Let_def concat_replicate_length scatter_ones_length
      mod_eq_0_iff_dvd)

lemma gate_score_mask_nth:
  assumes "n_routed_experts cfg mod n_group cfg = 0" "i < n_routed_experts cfg"
  shows "gate_score_mask cfg sfc ! i =
         (if i div (n_routed_experts cfg div n_group cfg) \<in> set (gate_group_idx cfg sfc)
          then 1 else 0)"
proof -
  let ?sz = "n_routed_experts cfg div n_group cfg"
  have E: "n_group cfg * ?sz = n_routed_experts cfg"
    using assms(1) by (simp add: mod_eq_0_iff_dvd)
  then have "i < n_group cfg * ?sz" using assms(2) by simp
  then have "i div ?sz < n_group cfg"
    by (metis mult.commute less_mult_imp_div_less)
  then show ?thesis using \<open>i < n_group cfg * ?sz\<close>
    by (simp add: gate_score_mask_def Let_def concat_replicate_nth scatter_ones_length
        scatter_ones_nth mult.commute)
qed

lemma gate_masked_scores_length:
  assumes "n_routed_experts cfg mod n_group cfg = 0" "length sfc = n_routed_experts cfg"
  shows "length (gate_masked_scores cfg sfc) = n_routed_experts cfg"
  using assms by (simp add: gate_masked_scores_def gate_score_mask_length)

lemma gate_masked_scores_nth:
  assumes "n_routed_experts cfg mod n_group cfg = 0" "length sfc = n_routed_experts cfg"
    "i < n_routed_experts cfg"
  shows "gate_masked_scores cfg sfc ! i =
         (if i div (n_routed_experts cfg div n_group cfg) \<in> set (gate_group_idx cfg sfc)
          then sfc ! i else 0)"
  using assms by (simp add: gate_masked_scores_def gate_score_mask_length gate_score_mask_nth)

subsection \<open>The selected indices\<close>

lemma gate_topk_indices_props:
  assumes ok: "gate_shapes_ok cfg weight bias hs" and len: "length scores = n_routed_experts cfg"
  shows "length (gate_topk_indices cfg bias scores) = top_k cfg"
    and "distinct (gate_topk_indices cfg bias scores)"
    and "set (gate_topk_indices cfg bias scores) \<subseteq> {..<n_routed_experts cfg}"
proof -
  from ok have m: "n_routed_experts cfg mod n_group cfg = 0"
    and k: "top_k cfg \<le> n_routed_experts cfg"
    and b: "length bias = n_routed_experts cfg"
    by (simp_all add: gate_shapes_ok_def)
  have sfc: "length (gate_scores_for_choice bias scores) = n_routed_experts cfg"
    using len b by (simp add: gate_scores_for_choice_def)
  have L: "length (gate_masked_scores cfg (gate_scores_for_choice bias scores))
           = n_routed_experts cfg"
    using m sfc by (rule gate_masked_scores_length)
  show "length (gate_topk_indices cfg bias scores) = top_k cfg"
    using k L by (simp add: gate_topk_indices_def topk_length)
  show "distinct (gate_topk_indices cfg bias scores)"
    by (simp add: gate_topk_indices_def topk_distinct)
  show "set (gate_topk_indices cfg bias scores) \<subseteq> {..<n_routed_experts cfg}"
    using topk_set [of "gate_masked_scores cfg (gate_scores_for_choice bias scores)" "top_k cfg"] L
    by (simp add: gate_topk_indices_def)
qed

lemma MoEGate_scores_row_length:
  "t < length (concat hs) \<Longrightarrow> length (MoEGate_scores weight hs ! t) = length weight"
  by (simp add: MoEGate_scores_nth)

lemma MoEGate_forward_indices:
  assumes fw: "MoEGate_forward cfg weight bias hs = Some (topk_indices, topk_weights)"
    and t: "t < length topk_indices"
  shows "length (topk_indices ! t) = top_k cfg"
    and "distinct (topk_indices ! t)"
    and "set (topk_indices ! t) \<subseteq> {..<n_routed_experts cfg}"
proof -
  note r = MoEGate_forward_rows [OF fw]
  from t r(2) have t': "t < length (concat hs)" by simp
  have "length weight = n_routed_experts cfg" using r(1) by (simp add: gate_shapes_ok_def)
  then have len: "length (MoEGate_scores weight hs ! t) = n_routed_experts cfg"
    using t' by (simp add: MoEGate_scores_row_length)
  note p = gate_topk_indices_props [OF r(1) len]
  show "length (topk_indices ! t) = top_k cfg" using p(1) r(4) [OF t'] by simp
  show "distinct (topk_indices ! t)" using p(2) r(4) [OF t'] by simp
  show "set (topk_indices ! t) \<subseteq> {..<n_routed_experts cfg}" using p(3) r(4) [OF t'] by simp
qed

subsection \<open>The small gate, evaluated\<close>

lemma ex_scores:
  "MoEGate_scores ex_weight ex_hidden = [[1 / 2, 1 / 2, 1 / 2, 1 / 2], [1 / 2, 1 / 2, 1 / 2, 1 / 2]]"
  by (simp add: MoEGate_scores_def ex_weight_def ex_hidden_def linear_row_def dot_def sigmoid_def)

lemma ex_shapes_ok: "gate_shapes_ok ex_cfg ex_weight [b0, b1, b2, b3] ex_hidden"
  by (simp add: gate_shapes_ok_def ex_cfg_def ex_weight_def ex_hidden_def)

lemma ex_forward:
  "MoEGate_forward ex_cfg ex_weight [0, 0, 1, 1] ex_hidden =
     Some ([[2, 3], [2, 3]],
           [[1 / 2 / (1 + 1 / 10 ^ 20) * (5 / 2), 1 / 2 / (1 + 1 / 10 ^ 20) * (5 / 2)],
            [1 / 2 / (1 + 1 / 10 ^ 20) * (5 / 2), 1 / 2 / (1 + 1 / 10 ^ 20) * (5 / 2)]])"
  unfolding MoEGate_forward_def ex_scores using ex_shapes_ok [of 0 0 1 1]
  apply simp
  apply code_simp
  done

subsection \<open>The weights\<close>

lemma sum_list_div_mult:
  "sum_list (map (\<lambda>w. w / d * r) (xs :: real list)) = sum_list xs / d * r"
  by (induction xs) (simp_all add: algebra_simps add_divide_distrib)

lemma sigmoid_pos: "0 < sigmoid x"
  by (simp add: sigmoid_def add_pos_pos)

text \<open>
  C3. The weights of a token are gathered from the sigmoid scores of the logits at the
  selected indices, normalised and scaled; the correction bias decides which indices are
  selected and nothing else: two biases that select the same experts for a token give the
  token the same weights.
\<close>

theorem gate_weights_from_unbiased_scores:
  assumes fw: "MoEGate_forward cfg weight bias hs = Some (topk_indices, topk_weights)"
    and t: "t < length topk_indices"
  shows "(let raw = map (\<lambda>i. sigmoid (dot (weight ! i) (concat hs ! t))) (topk_indices ! t)
          in topk_weights ! t =
             map (\<lambda>w. (if norm_topk_prob cfg then w / (sum_list raw + 1 / 10 ^ 20) else w)
                        * routed_scaling_factor cfg) raw) \<and>
         (\<forall>bias' topk_indices' topk_weights'.
            MoEGate_forward cfg weight bias' hs = Some (topk_indices', topk_weights') \<and>
            topk_indices' ! t = topk_indices ! t \<longrightarrow> topk_weights' ! t = topk_weights ! t)"
proof -
  note r = MoEGate_forward_rows [OF fw]
  from t r(2) have t': "t < length (concat hs)" by simp
  have W: "length weight = n_routed_experts cfg" using r(1) by (simp add: gate_shapes_ok_def)
  have sub: "set (topk_indices ! t) \<subseteq> {..<length weight}"
    using MoEGate_forward_indices(3) [OF fw t] W by simp
  have raw: "map (\<lambda>i. MoEGate_scores weight hs ! t ! i) (topk_indices ! t)
             = map (\<lambda>i. sigmoid (dot (weight ! i) (concat hs ! t))) (topk_indices ! t)"
    using sub t' by (auto simp: MoEGate_scores_nth)
  have w: "topk_weights ! t =
             map (\<lambda>w. (if norm_topk_prob cfg
                        then w / (sum_list (map (\<lambda>i. MoEGate_scores weight hs ! t ! i)
                                            (topk_indices ! t)) + 1 / 10 ^ 20)
                        else w) * routed_scaling_factor cfg)
               (map (\<lambda>i. MoEGate_scores weight hs ! t ! i) (topk_indices ! t))"
    unfolding r(5) [OF t'] by (simp add: gate_topk_weights_def Let_def)
  have indep: "topk_weights' ! t = topk_weights ! t"
    if "MoEGate_forward cfg weight bias' hs = Some (topk_indices', topk_weights')"
      and "topk_indices' ! t = topk_indices ! t"
    for bias' topk_indices' topk_weights'
    using MoEGate_forward_rows(5) [OF that(1) t'] r(5) [OF t'] that(2) by simp
  show ?thesis using w indep unfolding raw Let_def by blast
qed

theorem gate_weights_from_unbiased_scores_witness:
  "MoEGate_forward ex_cfg ex_weight [0, 0, 1, 1] ex_hidden =
     Some ([[2, 3], [2, 3]],
           [[1 / 2 / (1 + 1 / 10 ^ 20) * (5 / 2), 1 / 2 / (1 + 1 / 10 ^ 20) * (5 / 2)],
            [1 / 2 / (1 + 1 / 10 ^ 20) * (5 / 2), 1 / 2 / (1 + 1 / 10 ^ 20) * (5 / 2)]]) \<and>
   [1 / 2 / (1 + 1 / 10 ^ 20) * (5 / 2), 1 / 2 / (1 + 1 / 10 ^ 20) * (5 / 2)] =
     map (\<lambda>w. w / (sum_list [sigmoid (dot [0] [2]), sigmoid (dot [0] [2])] + 1 / 10 ^ 20) * (5 / 2))
       [sigmoid (dot [0] [2]), sigmoid (dot [0] [2 :: real])]"
  using gate_weights_from_unbiased_scores [OF ex_forward, of 1] ex_forward
  by (simp add: Let_def ex_cfg_def ex_weight_def ex_hidden_def)

lemma gate_weights_sum_formula:
  assumes fw: "MoEGate_forward cfg weight bias hs = Some (topk_indices, topk_weights)"
    and t: "t < length topk_indices"
  shows "(let S = sum_list (map (\<lambda>i. MoEGate_scores weight hs ! t ! i) (topk_indices ! t))
          in 0 \<le> S \<and>
             sum_list (topk_weights ! t) =
               (if norm_topk_prob cfg
                then routed_scaling_factor cfg * (S / (S + 1 / 10 ^ 20))
                else routed_scaling_factor cfg * S) \<and>
             (norm_topk_prob cfg \<longrightarrow>
                \<bar>sum_list (topk_weights ! t) - routed_scaling_factor cfg\<bar> =
                \<bar>routed_scaling_factor cfg\<bar> * ((1 / 10 ^ 20) / (S + 1 / 10 ^ 20))))"
proof -
  note r = MoEGate_forward_rows [OF fw]
  from t r(2) have t': "t < length (concat hs)" by simp
  define raw where "raw = map (\<lambda>i. MoEGate_scores weight hs ! t ! i) (topk_indices ! t)"
  define S where "S = sum_list raw"
  define c where "c = routed_scaling_factor cfg"
  have W: "length weight = n_routed_experts cfg" using r(1) by (simp add: gate_shapes_ok_def)
  have sub: "set (topk_indices ! t) \<subseteq> {..<length weight}"
    using MoEGate_forward_indices(3) [OF fw t] W by simp
  have "\<forall>x \<in> set raw. 0 \<le> x"
    using sub t' sigmoid_pos by (auto simp: raw_def MoEGate_scores_nth less_imp_le)
  then have S0: "0 \<le> S" unfolding S_def by (simp add: sum_list_nonneg)
  have w: "topk_weights ! t =
             (if norm_topk_prob cfg then map (\<lambda>w. w / (S + 1 / 10 ^ 20) * c) raw
              else map (\<lambda>w. w * c) raw)"
    unfolding r(5) [OF t'] by (simp add: gate_topk_weights_def Let_def raw_def S_def c_def)
  have s1: "sum_list (map (\<lambda>w. w / (S + 1 / 10 ^ 20) * c) raw) = c * (S / (S + 1 / 10 ^ 20))"
    unfolding sum_list_div_mult S_def by simp
  have s2: "sum_list (map (\<lambda>w. w * c) raw) = c * S"
    by (simp add: sum_list_mult_const S_def mult.commute)
  have pos: "0 < S + 1 / 10 ^ 20" using S0 by (simp add: add_nonneg_pos)
  have "c * (S / (S + 1 / 10 ^ 20)) - c = - (c * ((1 / 10 ^ 20) / (S + 1 / 10 ^ 20)))"
    using pos by (simp add: field_simps)
  then have d: "\<bar>c * (S / (S + 1 / 10 ^ 20)) - c\<bar> = \<bar>c\<bar> * ((1 / 10 ^ 20) / (S + 1 / 10 ^ 20))"
    using pos by (simp add: abs_mult)
  show ?thesis
    unfolding Let_def raw_def [symmetric] S_def [symmetric] c_def [symmetric]
    using S0 w s1 s2 d by simp
qed

lemma sigmoid_minus_200: "sigmoid (- 200) \<le> 1 / (2 * 10 ^ 20)"
proof -
  have "(2 :: real) \<le> exp 1" using exp_ge_add_one_self [of "1 :: real"] by simp
  then have "(2 :: real) ^ 200 \<le> exp 1 ^ 200" by (rule power_mono) simp
  also have "exp (1 :: real) ^ 200 = exp 200"
    using exp_of_nat_mult [of 200 "1 :: real"] by simp
  finally have "(2 :: real) ^ 200 \<le> exp 200" .
  moreover have "(2 :: real) * 10 ^ 20 \<le> 2 ^ 200" by simp
  ultimately have "(2 :: real) * 10 ^ 20 \<le> 1 + exp 200" by simp
  then have "1 / (1 + exp (200 :: real)) \<le> 1 / (2 * 10 ^ 20)"
    by (intro divide_left_mono) simp_all
  then show ?thesis by (simp add: sigmoid_def)
qed

text \<open>
  C4, as the code has it. With the normalisation the weights of a token need not sum to
  \<open>routed_scaling_factor\<close>, not even nearly: when every logit is \<open>-200\<close> the two selected
  sigmoid scores sum to less than the epsilon \<open>1e-20\<close>, and the weights sum to at most half
  of the scaling factor \<open>5/2\<close>; when \<open>top_k\<close> is zero there are no weights and the sum is
  zero.
\<close>

theorem gate_weights_sum_counterexample:
  "MoEGate_forward ex_cfg ex_weight_low [0, 0, 1, 1] [[[1]]] \<noteq> None \<and>
   sum_list (snd (the (MoEGate_forward ex_cfg ex_weight_low [0, 0, 1, 1] [[[1]]])) ! 0)
     \<le> routed_scaling_factor ex_cfg / 2 \<and>
   0 < routed_scaling_factor ex_cfg \<and> norm_topk_prob ex_cfg \<and>
   MoEGate_forward (ex_cfg\<lparr>top_k := 0\<rparr>) ex_weight [0, 0, 1, 1] ex_hidden
     = Some ([[], []], [[], []])"
proof -
  let ?s = "sigmoid (- 200)"
  have sc: "MoEGate_scores ex_weight_low [[[1]]] = [[?s, ?s, ?s, ?s]]"
    by (simp add: MoEGate_scores_def ex_weight_low_def linear_row_def dot_def)
  have ok: "gate_shapes_ok ex_cfg ex_weight_low [0, 0, 1, 1] [[[1]]]"
    by (simp add: gate_shapes_ok_def ex_cfg_def ex_weight_low_def)
  then obtain I W where fw: "MoEGate_forward ex_cfg ex_weight_low [0, 0, 1, 1] [[[1]]] = Some (I, W)"
    by (simp add: MoEGate_forward_def Let_def)
  have t: "0 < length I" using MoEGate_forward_rows(2) [OF fw] by simp
  note ix = MoEGate_forward_indices [OF fw t]
  have raw: "map (\<lambda>i. MoEGate_scores ex_weight_low [[[1]]] ! 0 ! i) (I ! 0)
             = replicate (length (I ! 0)) ?s"
  proof (rule nth_equalityI)
    show "length (map (\<lambda>i. MoEGate_scores ex_weight_low [[[1]]] ! 0 ! i) (I ! 0))
          = length (replicate (length (I ! 0)) ?s)" by simp
    fix j assume "j < length (map (\<lambda>i. MoEGate_scores ex_weight_low [[[1]]] ! 0 ! i) (I ! 0))"
    then have j: "j < length (I ! 0)" by simp
    then have "I ! 0 ! j \<in> set (I ! 0)" by (rule nth_mem)
    then have "I ! 0 ! j < 4" using ix(3) by (auto simp: ex_cfg_def)
    then have "[?s, ?s, ?s, ?s] ! (I ! 0 ! j) = ?s"
      by (auto simp: less_Suc_eq numeral_eq_Suc)
    then show "map (\<lambda>i. MoEGate_scores ex_weight_low [[[1]]] ! 0 ! i) (I ! 0) ! j
               = replicate (length (I ! 0)) ?s ! j"
      using j by (simp add: sc)
  qed
  define S where "S = sum_list (map (\<lambda>i. MoEGate_scores ex_weight_low [[[1]]] ! 0 ! i) (I ! 0))"
  have "S = 2 * ?s" unfolding S_def raw using ix(1) by (simp add: sum_list_replicate ex_cfg_def)
  then have S: "S \<le> 1 / 10 ^ 20" using sigmoid_minus_200 by simp
  have S0: "0 \<le> S" using \<open>S = 2 * ?s\<close> sigmoid_pos [of "- 200"] by simp
  have half: "S / (S + 1 / 10 ^ 20) \<le> 1 / 2" using S S0 by (simp add: field_simps)
  have rsf: "routed_scaling_factor ex_cfg = 5 / 2" and norm: "norm_topk_prob ex_cfg"
    by (simp_all add: ex_cfg_def)
  have "sum_list (W ! 0) = routed_scaling_factor ex_cfg * (S / (S + 1 / 10 ^ 20))"
    using gate_weights_sum_formula [OF fw t] norm by (simp add: Let_def S_def)
  moreover have "routed_scaling_factor ex_cfg * (S / (S + 1 / 10 ^ 20))
                   \<le> routed_scaling_factor ex_cfg * (1 / 2)"
    using half by (rule mult_left_mono) (simp add: rsf)
  ultimately have "sum_list (W ! 0) \<le> routed_scaling_factor ex_cfg / 2"
    by simp
  moreover have "MoEGate_forward (ex_cfg\<lparr>top_k := 0\<rparr>) ex_weight [0, 0, 1, 1] ex_hidden
     = Some ([[], []], [[], []])"
  proof -
    have "gate_shapes_ok (ex_cfg\<lparr>top_k := 0\<rparr>) ex_weight [0, 0, 1, 1] ex_hidden"
      by (simp add: gate_shapes_ok_def ex_cfg_def ex_weight_def ex_hidden_def)
    then show ?thesis
      by (simp add: MoEGate_forward_def Let_def ex_scores gate_topk_indices_def topk_def
          gate_topk_weights_def ex_cfg_def)
  qed
  ultimately show ?thesis using fw rsf norm by simp
qed

text \<open>
  C4, amended. With \<open>norm_topk_prob\<close> the weights of a token sum to
  \<open>routed_scaling_factor\<close> times \<open>S / (S + 1e-20)\<close>, where \<open>S\<close> is the sum of the token's
  sigmoid scores at the selected indices; the sum is within
  \<open>\<bar>routed_scaling_factor\<bar> * 1e-20 / d\<close> of \<open>routed_scaling_factor\<close> whenever \<open>S\<close> is at
  least \<open>d > 0\<close>. Without \<open>norm_topk_prob\<close> the weights sum to \<open>routed_scaling_factor\<close>
  times \<open>S\<close>.
\<close>

theorem gate_weights_sum:
  assumes fw: "MoEGate_forward cfg weight bias hs = Some (topk_indices, topk_weights)"
    and t: "t < length topk_indices"
  shows "(let S = sum_list (map (\<lambda>i. MoEGate_scores weight hs ! t ! i) (topk_indices ! t))
          in 0 \<le> S \<and>
             sum_list (topk_weights ! t) =
               (if norm_topk_prob cfg
                then routed_scaling_factor cfg * (S / (S + 1 / 10 ^ 20))
                else routed_scaling_factor cfg * S) \<and>
             (\<forall>d. norm_topk_prob cfg \<and> 0 < d \<and> d \<le> S \<longrightarrow>
                \<bar>sum_list (topk_weights ! t) - routed_scaling_factor cfg\<bar>
                  \<le> \<bar>routed_scaling_factor cfg\<bar> * ((1 / 10 ^ 20) / d)))"
proof -
  define S where "S = sum_list (map (\<lambda>i. MoEGate_scores weight hs ! t ! i) (topk_indices ! t))"
  have f: "0 \<le> S \<and>
             sum_list (topk_weights ! t) =
               (if norm_topk_prob cfg
                then routed_scaling_factor cfg * (S / (S + 1 / 10 ^ 20))
                else routed_scaling_factor cfg * S) \<and>
             (norm_topk_prob cfg \<longrightarrow>
                \<bar>sum_list (topk_weights ! t) - routed_scaling_factor cfg\<bar> =
                \<bar>routed_scaling_factor cfg\<bar> * ((1 / 10 ^ 20) / (S + 1 / 10 ^ 20)))"
    using gate_weights_sum_formula [OF fw t] unfolding Let_def S_def .
  from f have S0: "0 \<le> S" by blast
  from f have s: "sum_list (topk_weights ! t) =
               (if norm_topk_prob cfg
                then routed_scaling_factor cfg * (S / (S + 1 / 10 ^ 20))
                else routed_scaling_factor cfg * S)" by blast
  from f have e: "norm_topk_prob cfg \<Longrightarrow>
              \<bar>sum_list (topk_weights ! t) - routed_scaling_factor cfg\<bar> =
              \<bar>routed_scaling_factor cfg\<bar> * ((1 / 10 ^ 20) / (S + 1 / 10 ^ 20))" by blast
  have b: "\<bar>sum_list (topk_weights ! t) - routed_scaling_factor cfg\<bar>
             \<le> \<bar>routed_scaling_factor cfg\<bar> * ((1 / 10 ^ 20) / d)"
    if n: "norm_topk_prob cfg" and d: "0 < d" "d \<le> S" for d
  proof -
    have "(1 / 10 ^ 20) / (S + 1 / 10 ^ 20) \<le> (1 / 10 ^ 20) / d"
      using d by (intro divide_left_mono) (simp_all add: add_pos_pos)
    then show ?thesis unfolding e [OF n] by (intro mult_left_mono) simp_all
  qed
  show ?thesis unfolding Let_def S_def [symmetric] using S0 s b by blast
qed

theorem gate_weights_sum_witness:
  "MoEGate_forward ex_cfg ex_weight [0, 0, 1, 1] ex_hidden =
     Some ([[2, 3], [2, 3]],
           [[1 / 2 / (1 + 1 / 10 ^ 20) * (5 / 2), 1 / 2 / (1 + 1 / 10 ^ 20) * (5 / 2)],
            [1 / 2 / (1 + 1 / 10 ^ 20) * (5 / 2), 1 / 2 / (1 + 1 / 10 ^ 20) * (5 / 2)]]) \<and>
   sum_list [1 / 2 / (1 + 1 / 10 ^ 20) * (5 / 2), 1 / 2 / (1 + 1 / 10 ^ 20) * (5 / 2 :: real)] =
     5 / 2 * (1 / (1 + 1 / 10 ^ 20)) \<and>
   \<bar>sum_list [1 / 2 / (1 + 1 / 10 ^ 20) * (5 / 2), 1 / 2 / (1 + 1 / 10 ^ 20) * (5 / 2 :: real)]
      - 5 / 2\<bar> \<le> 5 / 2 * (1 / 10 ^ 20)"
proof -
  have t: "0 < length [[2, 3], [2, 3 :: nat]]" by simp
  have "\<forall>d. 0 < d \<and> d \<le> (1 :: real) \<longrightarrow>
          \<bar>sum_list [1 / 2 / (1 + 1 / 10 ^ 20) * (5 / 2), 1 / 2 / (1 + 1 / 10 ^ 20) * (5 / 2 :: real)]
             - 5 / 2\<bar> \<le> 5 / 2 * ((1 / 10 ^ 20) / d)"
    using gate_weights_sum [OF ex_forward t]
    by (simp add: Let_def ex_cfg_def ex_scores)
  then have "\<bar>sum_list [1 / 2 / (1 + 1 / 10 ^ 20) * (5 / 2), 1 / 2 / (1 + 1 / 10 ^ 20) * (5 / 2 :: real)]
             - 5 / 2\<bar> \<le> 5 / 2 * ((1 / 10 ^ 20) / 1)"
    by (rule allE) simp
  then show ?thesis using ex_forward by simp
qed


subsection \<open>Selection within the selected groups\<close>

lemma gate_group_idx_props:
  assumes "topk_group cfg \<le> n_group cfg"
  shows "length (gate_group_idx cfg sfc) = topk_group cfg"
    and "distinct (gate_group_idx cfg sfc)"
    and "set (gate_group_idx cfg sfc) \<subseteq> {..<n_group cfg}"
proof -
  have l: "length (gate_group_scores cfg sfc) = n_group cfg"
    by (simp add: gate_group_scores_def view_groups_def)
  show "length (gate_group_idx cfg sfc) = topk_group cfg"
    using assms l by (simp add: gate_group_idx_def topk_length)
  show "distinct (gate_group_idx cfg sfc)"
    by (simp add: gate_group_idx_def topk_distinct)
  show "set (gate_group_idx cfg sfc) \<subseteq> {..<n_group cfg}"
    using topk_set [of "gate_group_scores cfg sfc" "topk_group cfg"] l
    by (simp add: gate_group_idx_def)
qed

lemma card_group_members:
  assumes G: "finite G" "G \<subseteq> {..<n}" and sz: "0 < sz"
  shows "card {i. i < n * sz \<and> i div sz \<in> G} = card G * sz"
proof -
  let ?f = "\<lambda>(g, r). g * sz + r"
  have inj: "inj_on ?f (G \<times> {..<sz})"
  proof (rule inj_onI, clarify)
    fix g r g' r' assume r: "r < sz" "r' < sz" and eq: "g * sz + r = g' * sz + r'"
    have a: "(g * sz + r) div sz = g" using r(1) sz by (simp add: div_mult_self3)
    have b: "(g' * sz + r') div sz = g'" using r(2) sz by (simp add: div_mult_self3)
    have "(g * sz + r) div sz = (g' * sz + r') div sz" by (simp only: eq)
    then have g: "g = g'" unfolding a b .
    with eq have "r = r'" by simp
    with g show "g = g' \<and> r = r'" by simp
  qed
  have "{i. i < n * sz \<and> i div sz \<in> G} = ?f ` (G \<times> {..<sz})"
  proof (intro set_eqI iffI)
    fix i assume "i \<in> {i. i < n * sz \<and> i div sz \<in> G}"
    then have i: "i div sz \<in> G" by simp
    have "i = ?f (i div sz, i mod sz)" by simp
    moreover have "(i div sz, i mod sz) \<in> G \<times> {..<sz}" using i sz by simp
    ultimately show "i \<in> ?f ` (G \<times> {..<sz})" by (rule image_eqI)
  next
    fix i assume "i \<in> ?f ` (G \<times> {..<sz})"
    then obtain g r where gr: "g \<in> G" "r < sz" "i = g * sz + r" by auto
    then have d: "i div sz = g" using sz by (simp add: div_mult_self3)
    from gr(1) G(2) have "g < n" by auto
    then have "g * sz + sz \<le> n * sz"
      by (metis Suc_leI mult_Suc mult_le_mono1 add.commute)
    with gr have "i < n * sz" by simp
    with d gr(1) show "i \<in> {i. i < n * sz \<and> i div sz \<in> G}" by simp
  qed
  then have "card {i. i < n * sz \<and> i div sz \<in> G} = card (G \<times> {..<sz})"
    using inj by (simp add: card_image)
  then show ?thesis by (simp add: card_cartesian_product)
qed

text \<open>
  When the bias-adjusted scores of the experts in the selected groups are positive and
  the selected groups hold at least \<open>top_k\<close> experts, the fill value \<open>0.0\<close> of the others is
  below every score that competes with it, and the selected experts all lie in the
  selected groups.
\<close>

lemma gate_topk_indices_within_groups:
  assumes ok: "gate_shapes_ok cfg weight bias hs" and len: "length scores = n_routed_experts cfg"
    and cap: "top_k cfg \<le> topk_group cfg * (n_routed_experts cfg div n_group cfg)"
    and pos: "\<forall>i < n_routed_experts cfg.
                i div (n_routed_experts cfg div n_group cfg)
                  \<in> set (gate_group_idx cfg (gate_scores_for_choice bias scores)) \<longrightarrow>
                0 < gate_scores_for_choice bias scores ! i"
    and i: "i \<in> set (gate_topk_indices cfg bias scores)"
  shows "i div (n_routed_experts cfg div n_group cfg)
           \<in> set (gate_group_idx cfg (gate_scores_for_choice bias scores))"
proof (rule ccontr)
  let ?E = "n_routed_experts cfg" and ?sz = "n_routed_experts cfg div n_group cfg"
  let ?sfc = "gate_scores_for_choice bias scores"
  let ?G = "set (gate_group_idx cfg ?sfc)"
  let ?M = "gate_masked_scores cfg ?sfc"
  let ?T = "set (gate_topk_indices cfg bias scores)"
  let ?In = "{j. j < n_group cfg * ?sz \<and> j div ?sz \<in> ?G}"
  assume out: "i div ?sz \<notin> ?G"
  from ok have m: "?E mod n_group cfg = 0" and sz2: "2 \<le> ?sz"
    and tg: "topk_group cfg \<le> n_group cfg" and b: "length bias = ?E"
    by (simp_all add: gate_shapes_ok_def)
  have E: "n_group cfg * ?sz = ?E" using m by (simp add: mod_eq_0_iff_dvd)
  have sfc: "length ?sfc = ?E" using len b by (simp add: gate_scores_for_choice_def)
  have lM: "length ?M = ?E" using m sfc by (rule gate_masked_scores_length)
  note g = gate_group_idx_props [OF tg, of ?sfc]
  note p = gate_topk_indices_props [OF ok len]
  have cG: "card ?G = topk_group cfg" using g(1) g(2) by (simp add: distinct_card)
  have cIn: "card ?In = topk_group cfg * ?sz"
    using card_group_members [of ?G "n_group cfg" ?sz] g(3) sz2 cG by simp
  have cT: "card ?T = top_k cfg" using p(1) p(2) by (simp add: distinct_card)
  have iE: "i < ?E" using i p(3) by auto
  have "\<not> ?In \<subseteq> ?T"
  proof
    assume sub: "?In \<subseteq> ?T"
    have "i \<in> ?T - ?In" using i out by simp
    with sub have "?In \<subset> ?T" by auto
    then have "card ?In < card ?T" by (intro psubset_card_mono) simp_all
    with cIn cT cap show False by simp
  qed
  then obtain j where j: "j < ?E" "j div ?sz \<in> ?G" "j \<notin> ?T" using E by auto
  have "?M ! j \<le> ?M ! i"
    using topk_maximal [of i ?M "top_k cfg" j] i j(1,3) lM
    by (simp add: gate_topk_indices_def)
  moreover have "?M ! j = ?sfc ! j" using gate_masked_scores_nth [OF m sfc j(1)] j(2) by simp
  moreover have "?M ! i = 0" using gate_masked_scores_nth [OF m sfc iE] out by simp
  moreover have "0 < ?sfc ! j" using pos j(1,2) by simp
  ultimately show False by simp
qed

lemma MoEGate_forward_within_groups:
  assumes fw: "MoEGate_forward cfg weight bias hs = Some (topk_indices, topk_weights)"
    and t: "t < length topk_indices"
    and cap: "top_k cfg \<le> topk_group cfg * (n_routed_experts cfg div n_group cfg)"
    and pos: "\<forall>i < n_routed_experts cfg. 0 < MoEGate_scores weight hs ! t ! i + bias ! i"
    and i: "i \<in> set (topk_indices ! t)"
  shows "i div (n_routed_experts cfg div n_group cfg)
           \<in> set (gate_group_idx cfg
                   (gate_scores_for_choice bias (MoEGate_scores weight hs ! t)))"
proof -
  note r = MoEGate_forward_rows [OF fw]
  from t r(2) have t': "t < length (concat hs)" by simp
  have W: "length weight = n_routed_experts cfg" and b: "length bias = n_routed_experts cfg"
    using r(1) by (simp_all add: gate_shapes_ok_def)
  have len: "length (MoEGate_scores weight hs ! t) = n_routed_experts cfg"
    using t' W by (simp add: MoEGate_scores_row_length)
  have pos': "\<forall>i < n_routed_experts cfg.
                i div (n_routed_experts cfg div n_group cfg)
                  \<in> set (gate_group_idx cfg
                       (gate_scores_for_choice bias (MoEGate_scores weight hs ! t))) \<longrightarrow>
                0 < gate_scores_for_choice bias (MoEGate_scores weight hs ! t) ! i"
    using pos len b by (simp add: gate_scores_for_choice_def)
  show ?thesis
    using gate_topk_indices_within_groups [OF r(1) len cap pos'] i r(4) [OF t'] by simp
qed

text \<open>
  C1, at a correction bias below the negated scores. Every token selects the group of
  experts 0 and 1, whose bias-adjusted scores are \<open>-1/2\<close>; the scores of experts 2 and 3
  are filled with \<open>0.0\<close>, which is larger, and the final \<^verbatim>\<open>topk\<close> returns experts 2 and 3
  of the group that was not selected.
\<close>

theorem gate_selects_masked_experts:
  "map (\<lambda>scores. gate_group_idx ex_cfg (gate_scores_for_choice [- 1, - 1, - 2, - 2] scores))
     (MoEGate_scores ex_weight ex_hidden) = [[0], [0]] \<and>
   map (gate_masked_scores ex_cfg \<circ> gate_scores_for_choice [- 1, - 1, - 2, - 2])
     (MoEGate_scores ex_weight ex_hidden) = [[- 1 / 2, - 1 / 2, 0, 0], [- 1 / 2, - 1 / 2, 0, 0]] \<and>
   map_option fst (MoEGate_forward ex_cfg ex_weight [- 1, - 1, - 2, - 2] ex_hidden) =
     Some [[2, 3], [2, 3]]"
  unfolding MoEGate_forward_def ex_scores using ex_shapes_ok [of "- 1" "- 1" "- 2" "- 2"]
  apply simp
  apply code_simp
  done

section \<open>Rotary position embedding\<close>

lemma rotate_half_length: "length (rotate_half x) = length x"
  by (simp add: rotate_half_def)

lemma rotate_half_nth:
  assumes "even (length x)" "i < length x"
  shows "rotate_half x ! i =
         (if i < length x div 2 then - (x ! (i + length x div 2)) else x ! (i - length x div 2))"
proof -
  from assms(1) obtain m where m: "length x = 2 * m" by (auto elim: evenE)
  then have d: "length x div 2 = m" by simp
  show ?thesis using assms(2) unfolding rotate_half_def d
    by (auto simp: nth_append m add.commute)
qed

lemma rotate_vec_length:
  "length c = length x \<Longrightarrow> length s = length x \<Longrightarrow> length (rotate_vec x c s) = length x"
  by (simp add: rotate_vec_def rotate_half_length)

lemma rotate_vec_nth:
  assumes "length c = length x" "length s = length x" "i < length x"
  shows "rotate_vec x c s ! i = x ! i * c ! i + rotate_half x ! i * s ! i"
  using assms by (simp add: rotate_vec_def rotate_half_length)

lemma rotate_vec_inverse:
  assumes ev: "even (length y)" and c: "length c = length y" and s: "length s = length y"
    and tab: "\<forall>i < length y div 2.
                c ! (i + length y div 2) = c ! i \<and> s ! (i + length y div 2) = s ! i \<and>
                (c ! i)\<^sup>2 + (s ! i)\<^sup>2 = 1"
  shows "rotate_vec (rotate_vec y c s) c (map uminus s) = y"
proof (rule nth_equalityI)
  have l1: "length (rotate_vec y c s) = length y" using c s by (rule rotate_vec_length)
  show l2: "length (rotate_vec (rotate_vec y c s) c (map uminus s)) = length y"
    using l1 c s by (simp add: rotate_vec_length)
  from ev obtain m where m: "length y = 2 * m" by (auto elim: evenE)
  then have d: "length y div 2 = m" by simp
  fix i assume "i < length (rotate_vec (rotate_vec y c s) c (map uminus s))"
  then have i: "i < length y" using l2 by simp
  let ?z = "rotate_vec y c s"
  have z: "\<And>j. j < length y \<Longrightarrow> ?z ! j = y ! j * c ! j + rotate_half y ! j * s ! j"
    using c s by (simp add: rotate_vec_nth)
  have ev': "even (length ?z)" using l1 ev by simp
  have r: "rotate_vec ?z c (map uminus s) ! i = ?z ! i * c ! i + rotate_half ?z ! i * (- (s ! i))"
    using rotate_vec_nth [of c ?z "map uminus s" i] l1 c s i by simp
  show "rotate_vec ?z c (map uminus s) ! i = y ! i"
  proof (cases "i < m")
    case True
    then have im: "i + m < length y" using m by simp
    from tab True d have t: "c ! (i + m) = c ! i" "s ! (i + m) = s ! i" "(c ! i)\<^sup>2 + (s ! i)\<^sup>2 = 1"
      by simp_all
    have "rotate_vec ?z c (map uminus s) ! i =
          (y ! i * c ! i - y ! (i + m) * s ! i) * c ! i
          + (y ! (i + m) * c ! i + y ! i * s ! i) * s ! i"
      unfolding r using True i im t
      by (simp add: rotate_half_nth [OF ev'] rotate_half_nth [OF ev] l1 d z algebra_simps)
    also have "\<dots> = y ! i * ((c ! i)\<^sup>2 + (s ! i)\<^sup>2)"
      by (simp add: algebra_simps power2_eq_square)
    finally show ?thesis using t(3) by simp
  next
    case False
    then have im: "i - m < m" "i - m + m = i" "i - m < length y" using i m by simp_all
    from tab im(1) d have t: "c ! i = c ! (i - m)" "s ! i = s ! (i - m)"
      "(c ! (i - m))\<^sup>2 + (s ! (i - m))\<^sup>2 = 1"
      using im(2) by (metis, metis, simp)
    have "rotate_vec ?z c (map uminus s) ! i =
          (y ! i * c ! i + y ! (i - m) * s ! i) * c ! i
          - (y ! (i - m) * c ! i - y ! i * s ! i) * s ! i"
      unfolding r using False i im t
      by (simp add: rotate_half_nth [OF ev'] rotate_half_nth [OF ev] l1 d z algebra_simps)
    also have "\<dots> = y ! i * ((c ! i)\<^sup>2 + (s ! i)\<^sup>2)"
      by (simp add: algebra_simps power2_eq_square)
    finally show ?thesis using t by simp
  qed
qed

lemma interleave_pairs_length: "even (length x) \<Longrightarrow> length (interleave_pairs x) = length x"
  by (auto simp: interleave_pairs_def elim: evenE)

subsection \<open>Broadcasting, axis by axis\<close>

lemma those_map_Some_iff:
  "those (map f xs) = Some zs \<longleftrightarrow>
     length zs = length xs \<and> (\<forall>i<length xs. f (xs ! i) = Some (zs ! i))"
proof (induction xs arbitrary: zs)
  case Nil
  then show ?case by auto
next
  case (Cons x xs)
  show ?case
  proof (cases "f x")
    case None
    then show ?thesis by auto
  next
    case (Some y)
    show ?thesis
    proof (cases zs)
      case Nil
      then show ?thesis using Some by (auto split: option.splits)
    next
      case (Cons z zs')
      then show ?thesis using Some Cons.IH [of zs']
        by (auto simp: nth_Cons less_Suc_eq_0_disj split: option.splits)
    qed
  qed
qed

lemma those_upt_Some_iff:
  "those (map f [0..<n]) = Some zs \<longleftrightarrow> length zs = n \<and> (\<forall>i<n. f i = Some (zs ! i))"
  by (simp add: those_map_Some_iff)

lemma broadcast_index_less:
  "n = m \<or> n = 1 \<or> m = 1 \<Longrightarrow> i < broadcast_size n m \<Longrightarrow>
   broadcast_index n i < n \<and> broadcast_index m i < m"
  by (auto simp: broadcast_size_def broadcast_index_def split: if_splits)

lemma broadcast_level_Some_iff:
  "broadcast_level g xs ys = Some zs \<longleftrightarrow>
     (length xs = length ys \<or> length xs = 1 \<or> length ys = 1) \<and>
     length zs = broadcast_size (length xs) (length ys) \<and>
     (\<forall>i<length zs. g (xs ! broadcast_index (length xs) i) (ys ! broadcast_index (length ys) i)
                      = Some (zs ! i))"
  by (auto simp: broadcast_level_def those_upt_Some_iff)

lemma rotate_ops_Some_iff:
  "rotate_ops mul add rot x c s = Some z \<longleftrightarrow>
     (\<exists>a b. mul x c = Some a \<and> mul (rot x) s = Some b \<and> add a b = Some z)"
  by (auto simp: rotate_ops_def split: option.splits)

lemma rotate_ops_levelD:
  assumes r: "rotate_ops (broadcast_level mul) (broadcast_level add) (map rot) x c s = Some z"
  shows "length x = length c \<or> length x = 1 \<or> length c = 1"
    and "length x = length s \<or> length x = 1 \<or> length s = 1"
    and "length z = broadcast_size (broadcast_size (length x) (length c))
                      (broadcast_size (length x) (length s))"
    and "\<forall>i<length z. rotate_ops mul add rot (x ! broadcast_index (length x) i)
           (c ! broadcast_index (length c) i) (s ! broadcast_index (length s) i) = Some (z ! i)"
proof -
  from r obtain a b where a: "broadcast_level mul x c = Some a"
    and b: "broadcast_level mul (map rot x) s = Some b"
    and z: "broadcast_level add a b = Some z"
    unfolding rotate_ops_Some_iff by blast
  note A = a [unfolded broadcast_level_Some_iff]
  note B = b [unfolded broadcast_level_Some_iff length_map]
  note Z = z [unfolded broadcast_level_Some_iff]
  show 1: "length x = length c \<or> length x = 1 \<or> length c = 1" using A by blast
  show 2: "length x = length s \<or> length x = 1 \<or> length s = 1" using B by blast
  show 3: "length z = broadcast_size (broadcast_size (length x) (length c))
                      (broadcast_size (length x) (length s))" using A B Z by simp
  show "\<forall>i<length z. rotate_ops mul add rot (x ! broadcast_index (length x) i)
           (c ! broadcast_index (length c) i) (s ! broadcast_index (length s) i) = Some (z ! i)"
  proof (intro allI impI)
    fix i assume i: "i < length z"
    let ?j = "broadcast_index (length a) i" and ?k = "broadcast_index (length b) i"
    from Z i have jk: "?j < length a" "?k < length b"
      using broadcast_index_less [of "length a" "length b" i] by auto
    have za: "add (a ! ?j) (b ! ?k) = Some (z ! i)" using Z i by blast
    have ja: "broadcast_index (length x) ?j = broadcast_index (length x) i"
      "broadcast_index (length c) ?j = broadcast_index (length c) i"
      using A jk(1) by (auto simp: broadcast_size_def broadcast_index_def split: if_splits)
    have kb: "broadcast_index (length x) ?k = broadcast_index (length x) i"
      "broadcast_index (length s) ?k = broadcast_index (length s) i"
      using B jk(2) by (auto simp: broadcast_size_def broadcast_index_def split: if_splits)
    have xi: "broadcast_index (length x) i < length x"
      using broadcast_index_less [OF 1, of ?j] jk(1) A ja by simp
    have ea: "mul (x ! broadcast_index (length x) i) (c ! broadcast_index (length c) i) = Some (a ! ?j)"
      using A jk(1) ja by metis
    have eb: "mul (rot (x ! broadcast_index (length x) i)) (s ! broadcast_index (length s) i) = Some (b ! ?k)"
      using B jk(2) kb xi by (metis nth_map)
    show "rotate_ops mul add rot (x ! broadcast_index (length x) i)
           (c ! broadcast_index (length c) i) (s ! broadcast_index (length s) i) = Some (z ! i)"
      unfolding rotate_ops_Some_iff using ea eb za by blast
  qed
qed

lemma broadcast_size_same [simp]: "broadcast_size n n = n"
  by (simp add: broadcast_size_def)

lemma broadcast_index_same: "i < n \<Longrightarrow> broadcast_index n i = i"
  by (auto simp: broadcast_index_def)

lemma rotate_ops_levelI:
  assumes len: "length s = length c"
    and compat: "length x = length c \<or> length x = 1 \<or> length c = 1"
    and lz: "length z = broadcast_size (length x) (length c)"
    and ent: "\<forall>i<length z. rotate_ops mul add rot (x ! broadcast_index (length x) i)
           (c ! broadcast_index (length c) i) (s ! broadcast_index (length c) i) = Some (z ! i)"
  shows "rotate_ops (broadcast_level mul) (broadcast_level add) (map rot) x c s = Some z"
proof -
  define n where "n = length z"
  define a where "a = map (\<lambda>i. the (mul (x ! broadcast_index (length x) i)
                                        (c ! broadcast_index (length c) i))) [0..<n]"
  define b where "b = map (\<lambda>i. the (mul (rot (x ! broadcast_index (length x) i))
                                        (s ! broadcast_index (length c) i))) [0..<n]"
  have e: "mul (x ! broadcast_index (length x) i) (c ! broadcast_index (length c) i) = Some (a ! i) \<and>
           mul (rot (x ! broadcast_index (length x) i)) (s ! broadcast_index (length c) i) = Some (b ! i) \<and>
           add (a ! i) (b ! i) = Some (z ! i)" if "i < n" for i
  proof -
    from ent that obtain ai bi where
      "mul (x ! broadcast_index (length x) i) (c ! broadcast_index (length c) i) = Some ai"
      "mul (rot (x ! broadcast_index (length x) i)) (s ! broadcast_index (length c) i) = Some bi"
      "add ai bi = Some (z ! i)"
      unfolding rotate_ops_Some_iff n_def by blast
    then show ?thesis using that by (simp add: a_def b_def)
  qed
  have xi: "broadcast_index (length x) i < length x" if "i < n" for i
    using broadcast_index_less [OF compat, of i] that lz by (simp add: n_def)
  have A: "broadcast_level mul x c = Some a"
    unfolding broadcast_level_Some_iff using compat lz e by (simp add: a_def n_def)
  have B: "broadcast_level mul (map rot x) s = Some b"
    unfolding broadcast_level_Some_iff using compat lz e xi len by (simp add: b_def n_def)
  have Z: "broadcast_level add a b = Some z"
    unfolding broadcast_level_Some_iff using e
    by (simp add: a_def b_def n_def broadcast_index_same)
  show ?thesis unfolding rotate_ops_Some_iff using A B Z by blast
qed

lemma rotate_ops_round_trip_level:
  assumes elem: "\<And>xe ce se ze. P xe \<Longrightarrow> T ce se \<Longrightarrow> rotate_ops mul add rot xe ce se = Some ze \<Longrightarrow>
                   rotate_ops mul add rot ze ce (n se) = Some (e xe ze)"
    and r: "rotate_ops (broadcast_level mul) (broadcast_level add) (map rot) x c s = Some z"
    and len: "length s = length c"
    and P: "\<forall>i<length x. P (x ! i)"
    and T: "\<forall>i<length c. T (c ! i) (s ! i)"
  shows "rotate_ops (broadcast_level mul) (broadcast_level add) (map rot) z c (map n s)
         = Some (expand_level e x z)"
proof (rule rotate_ops_levelI)
  note d = rotate_ops_levelD [OF r]
  have lz: "length z = broadcast_size (length x) (length c)" using d(3) len by simp
  show "length (map n s) = length c" using len by simp
  show "length z = length c \<or> length z = 1 \<or> length c = 1"
    using d(1) lz by (auto simp: broadcast_size_def)
  show "length (expand_level e x z) = broadcast_size (length z) (length c)"
    using d(1) lz by (auto simp: expand_level_def broadcast_size_def)
  show "\<forall>i<length (expand_level e x z).
          rotate_ops mul add rot (z ! broadcast_index (length z) i)
            (c ! broadcast_index (length c) i) (map n s ! broadcast_index (length c) i)
          = Some (expand_level e x z ! i)"
  proof (intro allI impI)
    fix i assume "i < length (expand_level e x z)"
    then have i: "i < length z" by (simp add: expand_level_def)
    have b: "broadcast_index (length x) i < length x" "broadcast_index (length c) i < length c"
      using broadcast_index_less [OF d(1), of i] i lz by simp_all
    have "rotate_ops mul add rot (x ! broadcast_index (length x) i)
           (c ! broadcast_index (length c) i) (s ! broadcast_index (length c) i) = Some (z ! i)"
      using d(4) i len by simp
    then have "rotate_ops mul add rot (z ! i) (c ! broadcast_index (length c) i)
                 (n (s ! broadcast_index (length c) i))
               = Some (e (x ! broadcast_index (length x) i) (z ! i))"
      using P T b by (intro elem) auto
    then show "rotate_ops mul add rot (z ! broadcast_index (length z) i)
            (c ! broadcast_index (length c) i) (map n s ! broadcast_index (length c) i)
          = Some (expand_level e x z ! i)"
      using i b len by (simp add: expand_level_def broadcast_index_same)
  qed
qed

subsection \<open>The rotation of one vector\<close>

lemma broadcast_op1_Some_iff:
  "broadcast_op1 f xs ys = Some zs \<longleftrightarrow>
     (length xs = length ys \<or> length xs = 1 \<or> length ys = 1) \<and>
     length zs = broadcast_size (length xs) (length ys) \<and>
     (\<forall>i<length zs. zs ! i = f (xs ! broadcast_index (length xs) i)
                               (ys ! broadcast_index (length ys) i))"
  unfolding broadcast_op1_def broadcast_level_Some_iff by auto

lemma rotate_ops_vec:
  assumes len: "length sv = length cv"
    and fit: "length cv = length xv \<or> length cv = 1"
    and x1: "length xv \<noteq> 1"
  shows "rotate_ops (broadcast_op1 (*)) (broadcast_op1 (+)) rotate_half xv cv sv =
         Some (rotate_vec xv (map (\<lambda>i. cv ! broadcast_index (length cv) i) [0..<length xv])
                 (map (\<lambda>i. sv ! broadcast_index (length cv) i) [0..<length xv]))"
proof -
  let ?C = "map (\<lambda>i. cv ! broadcast_index (length cv) i) [0..<length xv]"
  let ?S = "map (\<lambda>i. sv ! broadcast_index (length cv) i) [0..<length xv]"
  have bs: "broadcast_size (length xv) (length cv) = length xv"
    using x1 by (simp add: broadcast_size_def)
  have bi: "broadcast_index (length xv) i = i" for i
    using x1 by (simp add: broadcast_index_def)
  have A: "broadcast_op1 (*) xv cv = Some (map2 (*) xv ?C)"
    unfolding broadcast_op1_Some_iff using fit bs bi by auto
  have B: "broadcast_op1 (*) (rotate_half xv) sv = Some (map2 (*) (rotate_half xv) ?S)"
    unfolding broadcast_op1_Some_iff using fit bs bi len by (auto simp: rotate_half_length)
  have Z: "broadcast_op1 (+) (map2 (*) xv ?C) (map2 (*) (rotate_half xv) ?S)
           = Some (map2 (+) (map2 (*) xv ?C) (map2 (*) (rotate_half xv) ?S))"
    unfolding broadcast_op1_Some_iff by (auto simp: rotate_half_length broadcast_index_same)
  show ?thesis unfolding rotate_ops_Some_iff rotate_vec_def using A B Z by blast
qed

lemma rotate_ops_vec_fit:
  assumes r: "rotate_ops (broadcast_op1 (*)) (broadcast_op1 (+)) rotate_half xv cv sv = Some zv"
    and x1: "length xv \<noteq> 1"
  shows "length cv = length xv \<or> length cv = 1"
  using r x1 unfolding rotate_ops_Some_iff broadcast_op1_Some_iff by auto

lemma angle_vecD:
  assumes "angle_vec c s"
  shows "length s = length c"
    and "i < length c \<Longrightarrow> (c ! i)\<^sup>2 + (s ! i)\<^sup>2 = 1"
    and "i < length c div 2 \<Longrightarrow> c ! (i + length c div 2) = c ! i \<and> s ! (i + length c div 2) = s ! i"
  using assms by (auto simp: angle_vec_def list_all_iff)

lemma rotate_ops_vec_round_trip:
  assumes ev: "even (length xv)" and tab: "angle_vec cv sv"
    and r: "rotate_ops (broadcast_op1 (*)) (broadcast_op1 (+)) rotate_half xv cv sv = Some zv"
  shows "rotate_ops (broadcast_op1 (*)) (broadcast_op1 (+)) rotate_half zv cv (map uminus sv)
         = Some xv"
proof -
  let ?n = "length xv"
  let ?C = "map (\<lambda>i. cv ! broadcast_index (length cv) i) [0..<?n]"
  let ?S = "map (\<lambda>i. sv ! broadcast_index (length cv) i) [0..<?n]"
  note t = angle_vecD [OF tab]
  from ev have x1: "?n \<noteq> 1" by auto
  note fit = rotate_ops_vec_fit [OF r x1]
  have z: "zv = rotate_vec xv ?C ?S" using r rotate_ops_vec [OF t(1) fit x1] by simp
  have lz: "length zv = ?n" unfolding z by (simp add: rotate_vec_length)
  have bi: "broadcast_index (length cv) i < length cv" if "i < ?n" for i
    using fit that by (auto simp: broadcast_index_def)
  have S: "map (\<lambda>i. map uminus sv ! broadcast_index (length cv) i) [0..<?n] = map uminus ?S"
    using bi t(1) by simp
  have "rotate_ops (broadcast_op1 (*)) (broadcast_op1 (+)) rotate_half zv cv (map uminus sv)
        = Some (rotate_vec zv ?C (map uminus ?S))"
    using rotate_ops_vec [of "map uminus sv" cv zv] t(1) fit x1 lz S by simp
  moreover have "rotate_vec (rotate_vec xv ?C ?S) ?C (map uminus ?S) = xv"
  proof (rule rotate_vec_inverse [OF ev])
    show "length ?C = ?n" "length ?S = ?n" by simp_all
    show "\<forall>i<?n div 2. ?C ! (i + ?n div 2) = ?C ! i \<and> ?S ! (i + ?n div 2) = ?S ! i \<and>
                       (?C ! i)\<^sup>2 + (?S ! i)\<^sup>2 = 1"
    proof (intro allI impI)
      fix i assume i: "i < ?n div 2"
      with ev have i2: "i + ?n div 2 < ?n" "i < ?n" by (auto elim: evenE)
      show "?C ! (i + ?n div 2) = ?C ! i \<and> ?S ! (i + ?n div 2) = ?S ! i \<and>
            (?C ! i)\<^sup>2 + (?S ! i)\<^sup>2 = 1"
      proof (cases "length cv = 1")
        case True
        then show ?thesis using i2 t(2) [of 0] by (simp add: broadcast_index_def)
      next
        case False
        with fit have "length cv = ?n" by simp
        then show ?thesis using i i2 False t(2) [of i] t(3) [of i]
          by (simp add: broadcast_index_def)
      qed
    qed
  qed
  ultimately show ?thesis unfolding z by simp
qed

subsection \<open>The rotation of a tensor, undone\<close>

lemma angle_tablesD:
  assumes "angle_tables cos_t sin_t"
  shows "length sin_t = length cos_t"
    and "b < length cos_t \<Longrightarrow> length (sin_t ! b) = length (cos_t ! b)"
    and "b < length cos_t \<Longrightarrow> t < length (cos_t ! b) \<Longrightarrow> angle_vec (cos_t ! b ! t) (sin_t ! b ! t)"
  using assms by (auto simp: angle_tables_def list_all_length)

lemma last_dim_evenD:
  "last_dim_even x \<Longrightarrow> b < length x \<Longrightarrow> h < length (x ! b) \<Longrightarrow> t < length (x ! b ! h) \<Longrightarrow>
   even (length (x ! b ! h ! t))"
  by (simp add: last_dim_even_def list_all_length)

lemma rotate_embed_levels:
  "rotate_embed x c s =
     rotate_ops (broadcast_level (broadcast_level (broadcast_level (broadcast_op1 (*)))))
       (broadcast_level (broadcast_level (broadcast_level (broadcast_op1 (+)))))
       (map (map (map rotate_half))) x c s"
  unfolding rotate_embed_def rotate_ops_def broadcast_op_def rotate_half_last_def ..

lemma rotate_embed_round_trip:
  assumes r: "rotate_embed x (unsqueeze_1 cos_t) (unsqueeze_1 sin_t) = Some z"
    and ev: "last_dim_even x"
    and tab: "angle_tables cos_t sin_t"
  shows "rotate_embed z (unsqueeze_1 cos_t) (unsqueeze_1 (negate_table sin_t))
         = Some (expand_as x z)"
proof -
  let ?V = "rotate_ops (broadcast_op1 (*)) (broadcast_op1 (+)) rotate_half"
  let ?L3 = "rotate_ops (broadcast_level (broadcast_op1 (*))) (broadcast_level (broadcast_op1 (+)))
               (map rotate_half)"
  let ?L2 = "rotate_ops (broadcast_level (broadcast_level (broadcast_op1 (*))))
               (broadcast_level (broadcast_level (broadcast_op1 (+)))) (map (map rotate_half))"
  let ?P0 = "\<lambda>xe :: vec. even (length xe)"
  let ?P3 = "\<lambda>xe :: tensor2. \<forall>i<length xe. ?P0 (xe ! i)"
  let ?P2 = "\<lambda>xe :: tensor3. \<forall>i<length xe. ?P3 (xe ! i)"
  let ?T3 = "\<lambda>(ce :: tensor2) (se :: tensor2).
               length se = length ce \<and> (\<forall>i<length ce. angle_vec (ce ! i) (se ! i))"
  let ?T2 = "\<lambda>(ce :: tensor3) (se :: tensor3).
               length se = length ce \<and> (\<forall>i<length ce. ?T3 (ce ! i) (se ! i))"
  let ?e0 = "\<lambda>(xv :: vec) (zv :: vec). xv"
  have v: "?V ze ce (map uminus se) = Some (?e0 xe ze)"
    if "?P0 xe" "angle_vec ce se" "?V xe ce se = Some ze" for xe ce se ze
    using that by (rule rotate_ops_vec_round_trip)
  have l3: "?L3 ze ce (map (map uminus) se) = Some (expand_level ?e0 xe ze)"
    if "?P3 xe" "?T3 ce se" "?L3 xe ce se = Some ze" for xe ce se ze
    using that
    by (intro rotate_ops_round_trip_level [where P = ?P0 and T = angle_vec and n = "map uminus"
          and e = ?e0 and mul = "broadcast_op1 (*)" and add = "broadcast_op1 (+)"
          and rot = rotate_half] v) auto
  have l2: "?L2 ze ce (map (map (map uminus)) se) = Some (expand_level (expand_level ?e0) xe ze)"
    if "?P2 xe" "?T2 ce se" "?L2 xe ce se = Some ze" for xe ce se ze
    using that
    by (intro rotate_ops_round_trip_level [where P = ?P3 and T = ?T3 and n = "map (map uminus)"
          and e = "expand_level ?e0" and mul = "broadcast_level (broadcast_op1 (*))"
          and add = "broadcast_level (broadcast_op1 (+))" and rot = "map rotate_half"] l3) auto
  note t = angle_tablesD [OF tab]
  have n: "unsqueeze_1 (negate_table sin_t) = map (map (map (map uminus))) (unsqueeze_1 sin_t)"
    by (simp add: unsqueeze_1_def negate_table_def)
  have "rotate_ops (broadcast_level (broadcast_level (broadcast_level (broadcast_op1 (*)))))
          (broadcast_level (broadcast_level (broadcast_level (broadcast_op1 (+)))))
          (map (map (map rotate_half))) z (unsqueeze_1 cos_t)
          (map (map (map (map uminus))) (unsqueeze_1 sin_t))
        = Some (expand_level (expand_level (expand_level ?e0)) x z)"
  proof (rule rotate_ops_round_trip_level [where P = ?P2 and T = ?T2, OF l2])
    show "rotate_ops (broadcast_level (broadcast_level (broadcast_level (broadcast_op1 (*)))))
          (broadcast_level (broadcast_level (broadcast_level (broadcast_op1 (+)))))
          (map (map (map rotate_half))) x (unsqueeze_1 cos_t) (unsqueeze_1 sin_t) = Some z"
      using r by (simp add: rotate_embed_levels)
    show "length (unsqueeze_1 sin_t) = length (unsqueeze_1 cos_t)"
      using t(1) by (simp add: unsqueeze_1_def)
    show "\<forall>i<length x. ?P2 (x ! i)" using ev by (simp add: last_dim_evenD)
    show "\<forall>i<length (unsqueeze_1 cos_t). ?T2 (unsqueeze_1 cos_t ! i) (unsqueeze_1 sin_t ! i)"
      using t by (simp add: unsqueeze_1_def)
  qed
  then show ?thesis
    unfolding n by (simp add: rotate_embed_levels expand_as_def)
qed

subsection \<open>The round trip\<close>

lemma expand_level_same:
  assumes "length z = length x" and "\<And>i. i < length x \<Longrightarrow> e (x ! i) (z ! i) = x ! i"
  shows "expand_level e x z = x"
  using assms by (intro nth_equalityI) (simp_all add: expand_level_def broadcast_index_same)

lemma shape_ofD:
  assumes "shape_of z = shape_of x"
  shows "length z = length x"
    and "b < length x \<Longrightarrow> length (z ! b) = length (x ! b)"
    and "b < length x \<Longrightarrow> h < length (x ! b) \<Longrightarrow> length (z ! b ! h) = length (x ! b ! h)"
proof -
  from assms have e: "map (map (map length)) z = map (map (map length)) x"
    by (simp add: shape_of_def)
  from arg_cong [OF e, of length] show l: "length z = length x" by simp
  have eb: "map (map length) (z ! b) = map (map length) (x ! b)" if "b < length x" for b
    using arg_cong [OF e, of "\<lambda>t. t ! b"] that l by simp
  show lb: "length (z ! b) = length (x ! b)" if "b < length x" for b
    using arg_cong [OF eb [OF that], of length] by simp
  show "length (z ! b ! h) = length (x ! b ! h)" if "b < length x" "h < length (x ! b)" for b h
  proof -
    have "map length (z ! b ! h) = map length (x ! b ! h)"
      using arg_cong [OF eb [OF that(1)], of "\<lambda>t. t ! h"] that lb by simp
    from arg_cong [OF this, of length] show ?thesis by simp
  qed
qed

lemma expand_as_same_shape:
  assumes "shape_of z = shape_of x"
  shows "expand_as x z = x"
  unfolding expand_as_def using shape_ofD [OF assms]
  by (intro expand_level_same) simp_all

lemma shape_of_interleave_last:
  "last_dim_even x \<Longrightarrow> shape_of (interleave_last x) = shape_of x"
  by (auto simp: shape_of_def interleave_last_def last_dim_even_def list_all_iff
      interleave_pairs_length)

lemma last_dim_even_interleave_last:
  "last_dim_even x \<Longrightarrow> last_dim_even (interleave_last x)"
  by (auto simp: interleave_last_def last_dim_even_def list_all_iff interleave_pairs_length)

lemma apply_rotary_pos_embD:
  assumes "apply_rotary_pos_emb q k cos_t sin_t = Some (q_embed, k_embed)"
  shows "last_dim_even q" "last_dim_even k"
    and "rotate_embed (interleave_last q) (unsqueeze_1 cos_t) (unsqueeze_1 sin_t) = Some q_embed"
    and "rotate_embed (interleave_last k) (unsqueeze_1 cos_t) (unsqueeze_1 sin_t) = Some k_embed"
  using assms by (auto simp: apply_rotary_pos_emb_def Let_def split: if_splits option.splits)

text \<open>
  C5, as the code has it. Rotating by the angles of the tables and then by the opposite
  angles does not return the slice: \<^verbatim>\<open>apply_rotary_pos_emb\<close> de-interleaves the pairs
  again at the second call. For a slice \<open>[1, 2, 3, 4]\<close> and a quarter turn (cosine 0,
  sine 1) the first call gives \<open>[-2, -4, 1, 3]\<close>, and the call with the opposite quarter
  turn (cosine 0, sine -1) gives \<open>[-4, 3, 2, -1]\<close>.
\<close>

theorem rotary_round_trip_counterexample:
  "apply_rotary_pos_emb [[[[1, 2, 3, 4]]]] [[[[1, 2, 3, 4]]]]
     [[[cos (pi / 2), cos (pi / 2), cos (pi / 2), cos (pi / 2)]]]
     [[[sin (pi / 2), sin (pi / 2), sin (pi / 2), sin (pi / 2)]]]
   = Some ([[[[- 2, - 4, 1, 3]]]], [[[[- 2, - 4, 1, 3]]]]) \<and>
   apply_rotary_pos_emb [[[[- 2, - 4, 1, 3]]]] [[[[- 2, - 4, 1, 3]]]]
     [[[cos (- (pi / 2)), cos (- (pi / 2)), cos (- (pi / 2)), cos (- (pi / 2))]]]
     [[[sin (- (pi / 2)), sin (- (pi / 2)), sin (- (pi / 2)), sin (- (pi / 2))]]]
   = Some ([[[[- 4, 3, 2, - 1]]]], [[[[- 4, 3, 2, - 1]]]]) \<and>
   [[[[- 4, 3, 2, - 1]]]] \<noteq> [[[[1, 2, 3, 4 :: real]]]]"
  apply (simp only: cos_pi_half sin_pi_half cos_minus sin_minus)
  apply code_simp
  done

text \<open>
  C5, amended. The rotation itself is undone by the opposite angles. For every call of
  \<^verbatim>\<open>apply_rotary_pos_emb\<close> that returns, with tables of angles that are broadcast against
  \<open>q\<close> and \<open>k\<close> in any way torch allows, the rotate-half rotation of the results with the
  same cosines and the negated sines, without a second de-interleaving, returns the
  de-interleaved \<open>q\<close> and \<open>k\<close> at the shape of the results; these are the de-interleaved
  \<open>q\<close> and \<open>k\<close> themselves whenever the results have the shapes of \<open>q\<close> and \<open>k\<close>, as they
  have when the tables are broadcast over \<open>q\<close> and \<open>k\<close>.
\<close>

theorem rotary_rotation_undone_by_opposite_angle:
  assumes ap: "apply_rotary_pos_emb q k cos_t sin_t = Some (q_embed, k_embed)"
    and tab: "angle_tables cos_t sin_t"
  shows "rotate_embed q_embed (unsqueeze_1 cos_t) (unsqueeze_1 (negate_table sin_t))
           = Some (expand_as (interleave_last q) q_embed) \<and>
         rotate_embed k_embed (unsqueeze_1 cos_t) (unsqueeze_1 (negate_table sin_t))
           = Some (expand_as (interleave_last k) k_embed) \<and>
         (shape_of q_embed = shape_of q \<longrightarrow>
            expand_as (interleave_last q) q_embed = interleave_last q) \<and>
         (shape_of k_embed = shape_of k \<longrightarrow>
            expand_as (interleave_last k) k_embed = interleave_last k)"
proof -
  note d = apply_rotary_pos_embD [OF ap]
  have "rotate_embed q_embed (unsqueeze_1 cos_t) (unsqueeze_1 (negate_table sin_t))
           = Some (expand_as (interleave_last q) q_embed)"
    using d(3) last_dim_even_interleave_last [OF d(1)] tab by (rule rotate_embed_round_trip)
  moreover have "rotate_embed k_embed (unsqueeze_1 cos_t) (unsqueeze_1 (negate_table sin_t))
           = Some (expand_as (interleave_last k) k_embed)"
    using d(4) last_dim_even_interleave_last [OF d(2)] tab by (rule rotate_embed_round_trip)
  moreover have "expand_as (interleave_last q) q_embed = interleave_last q"
    if "shape_of q_embed = shape_of q"
    using that shape_of_interleave_last [OF d(1)] by (intro expand_as_same_shape) simp
  moreover have "expand_as (interleave_last k) k_embed = interleave_last k"
    if "shape_of k_embed = shape_of k"
    using that shape_of_interleave_last [OF d(2)] by (intro expand_as_same_shape) simp
  ultimately show ?thesis by blast
qed

lemma ex_rotary:
  "apply_rotary_pos_emb [[[[1, 2, 3, 4]]], [[[5, 6, 7, 8]]]] [[[[1, 2, 3, 4], [5, 6, 7, 8]]]]
     [[[0, 0, 0, 0]]] [[[1, 1, 1, 1]]]
   = Some ([[[[- 2, - 4, 1, 3]]], [[[- 6, - 8, 5, 7]]]], [[[[- 2, - 4, 1, 3], [- 6, - 8, 5, 7]]]])"
  by code_simp

theorem rotary_rotation_undone_by_opposite_angle_witness:
  "apply_rotary_pos_emb [[[[1, 2, 3, 4]]], [[[5, 6, 7, 8]]]] [[[[1, 2, 3, 4], [5, 6, 7, 8]]]]
     [[[0, 0, 0, 0]]] [[[1, 1, 1, 1]]]
   = Some ([[[[- 2, - 4, 1, 3]]], [[[- 6, - 8, 5, 7]]]], [[[[- 2, - 4, 1, 3], [- 6, - 8, 5, 7]]]]) \<and>
   angle_tables [[[0, 0, 0, 0]]] [[[1, 1, 1, 1]]] \<and>
   shape_of [[[[- 2, - 4, 1, 3]]], [[[- 6, - 8, 5, 7]]]] = shape_of [[[[1, 2, 3, 4]]], [[[5, 6, 7, 8 :: real]]]] \<and>
   shape_of [[[[- 2, - 4, 1, 3], [- 6, - 8, 5, 7]]]] = shape_of [[[[1, 2, 3, 4], [5, 6, 7, 8 :: real]]]] \<and>
   rotate_embed [[[[- 2, - 4, 1, 3]]], [[[- 6, - 8, 5, 7]]]] (unsqueeze_1 [[[0, 0, 0, 0]]])
       (unsqueeze_1 (negate_table [[[1, 1, 1, 1]]]))
     = Some (interleave_last [[[[1, 2, 3, 4]]], [[[5, 6, 7, 8]]]]) \<and>
   rotate_embed [[[[- 2, - 4, 1, 3], [- 6, - 8, 5, 7]]]] (unsqueeze_1 [[[0, 0, 0, 0]]])
       (unsqueeze_1 (negate_table [[[1, 1, 1, 1]]]))
     = Some (interleave_last [[[[1, 2, 3, 4], [5, 6, 7, 8]]]])"
proof -
  have t: "angle_tables [[[0, 0, 0, 0]]] [[[1, 1, 1, 1]]]"
    by code_simp
  have sq: "shape_of [[[[- 2, - 4, 1, 3]]], [[[- 6, - 8, 5, 7]]]]
            = shape_of [[[[1, 2, 3, 4]]], [[[5, 6, 7, 8 :: real]]]]"
    by (simp add: shape_of_def)
  have sk: "shape_of [[[[- 2, - 4, 1, 3], [- 6, - 8, 5, 7]]]]
            = shape_of [[[[1, 2, 3, 4], [5, 6, 7, 8 :: real]]]]"
    by (simp add: shape_of_def)
  show ?thesis
    using rotary_rotation_undone_by_opposite_angle [OF ex_rotary t] ex_rotary t sq sk
    by simp
qed

subsection \<open>The shape of a rotated tensor\<close>

lemma rotate_ops_level_index:
  assumes r: "rotate_ops (broadcast_level mul) (broadcast_level add) (map rot) x c s = Some z"
    and i: "i < length z"
  shows "broadcast_index (length x) i < length x"
    and "broadcast_index (length c) i < length c"
    and "broadcast_index (length s) i < length s"
proof -
  from r obtain a b where a: "broadcast_level mul x c = Some a"
    and b: "broadcast_level mul (map rot x) s = Some b"
    and z: "broadcast_level add a b = Some z"
    unfolding rotate_ops_Some_iff by blast
  note A = a [unfolded broadcast_level_Some_iff]
  note B = b [unfolded broadcast_level_Some_iff length_map]
  note Z = z [unfolded broadcast_level_Some_iff]
  let ?j = "broadcast_index (length a) i" and ?k = "broadcast_index (length b) i"
  from Z i have jk: "?j < length a" "?k < length b"
    using broadcast_index_less [of "length a" "length b" i] by auto
  have ja: "broadcast_index (length x) ?j = broadcast_index (length x) i"
    "broadcast_index (length c) ?j = broadcast_index (length c) i"
    using A jk(1) by (auto simp: broadcast_size_def broadcast_index_def split: if_splits)
  have kb: "broadcast_index (length s) ?k = broadcast_index (length s) i"
    using B jk(2) by (auto simp: broadcast_size_def broadcast_index_def split: if_splits)
  have 1: "length x = length c \<or> length x = 1 \<or> length c = 1" using A by blast
  have 2: "length x = length s \<or> length x = 1 \<or> length s = 1" using B by blast
  show "broadcast_index (length x) i < length x" "broadcast_index (length c) i < length c"
    using broadcast_index_less [OF 1, of ?j] jk(1) A ja by simp_all
  show "broadcast_index (length s) i < length s"
    using broadcast_index_less [OF 2, of ?k] jk(2) B kb by simp
qed

lemma rotate_ops_vec_length:
  assumes "rotate_ops (broadcast_op1 (*)) (broadcast_op1 (+)) rotate_half xv cv sv = Some zv"
  shows "length zv = broadcast_size (broadcast_size (length xv) (length cv))
                       (broadcast_size (length xv) (length sv))"
  using assms unfolding rotate_ops_Some_iff broadcast_op1_Some_iff
  by (auto simp: rotate_half_length)

lemma broadcast_fit:
  "lz = broadcast_size (broadcast_size n c) (broadcast_size n s) \<Longrightarrow> lz = n \<or> lz = 1 \<Longrightarrow> lz = n"
  by (auto simp: broadcast_size_def split: if_splits)

lemma broadcast_index_idem:
  "broadcast_index n (broadcast_index n i) = broadcast_index n i"
  by (simp add: broadcast_index_def)

section \<open>Latent attention\<close>

subsection \<open>Slice assignment\<close>

lemma assign_level_Some_iff:
  "assign_level g dst src = Some r \<longleftrightarrow>
     (length src = length dst \<or> length src = 1) \<and> length r = length dst \<and>
     (\<forall>i<length dst. g (dst ! i) (src ! broadcast_index (length src) i) = Some (r ! i))"
  by (auto simp: assign_level_def those_upt_Some_iff)

lemma assign_vec_fit:
  assumes "assign_vec lo hi dv sv = Some rv"
    and "length sv = min hi (length dv) - min lo (length dv)"
  shows "rv = take lo dv @ sv @ drop hi dv"
proof -
  have "map (\<lambda>i. sv ! broadcast_index (length sv) i) [0..<length sv] = sv"
    by (intro nth_equalityI) (simp_all add: broadcast_index_same)
  then show ?thesis using assms by (auto simp: assign_vec_def Let_def split: if_splits)
qed

lemma assign_vec_compat:
  assumes "assign_vec lo hi dv sv = Some rv"
  shows "length sv = min hi (length dv) - min lo (length dv) \<or> length sv = 1"
  using assms by (auto simp: assign_vec_def Let_def split: if_splits)

lemma assign_vec_length:
  assumes "assign_vec lo hi dv sv = Some rv" and "lo \<le> hi"
  shows "length rv = length dv"
  using assms by (auto simp: assign_vec_def Let_def split: if_splits)

lemma assign_lastD:
  assumes a: "assign_last lo hi dst src = Some r"
  shows "length src = length dst \<or> length src = 1"
    and "length r = length dst"
    and "b < length dst \<Longrightarrow>
         assign_level (assign_level (assign_vec lo hi)) (dst ! b)
           (src ! broadcast_index (length src) b) = Some (r ! b)"
  using a unfolding assign_last_def assign_level_Some_iff [of "assign_level (assign_level (assign_vec lo hi))"]
  by blast+

lemma rotate_embed_assigned:
  assumes r: "rotate_embed x C S = Some z"
    and a: "assign_last lo hi dst z = Some res"
    and b: "b < length dst" and h: "h < length (dst ! b)" and t: "t < length (dst ! b ! h)"
    and xb: "length x = length dst"
    and xh: "length (x ! b) = length (dst ! b) \<or>
             length (x ! b) = 1 \<and> (\<forall>j<length C. length (C ! j) = 1) \<and>
             (\<forall>j<length S. length (S ! j) = 1)"
    and xt: "length (x ! b ! broadcast_index (length (x ! b)) h) = length (dst ! b ! h)"
    and xv: "length (x ! b ! broadcast_index (length (x ! b)) h ! t)
             = min hi (length (dst ! b ! h ! t)) - min lo (length (dst ! b ! h ! t))"
  shows "length z = length dst"
    and "length (z ! b) = length (x ! b)"
    and "length (z ! b ! broadcast_index (length (x ! b)) h) = length (dst ! b ! h)"
    and "length (z ! b ! broadcast_index (length (x ! b)) h ! t)
         = min hi (length (dst ! b ! h ! t)) - min lo (length (dst ! b ! h ! t))"
    and "res ! b ! h ! t =
           take lo (dst ! b ! h ! t) @ z ! b ! broadcast_index (length (x ! b)) h ! t
           @ drop hi (dst ! b ! h ! t)"
proof -
  let ?h = "broadcast_index (length (x ! b)) h"
  let ?cb = "broadcast_index (length C) b" and ?sb = "broadcast_index (length S) b"
  note r1 = r [unfolded rotate_embed_levels]
  note d1 = rotate_ops_levelD [OF r1]
  note a1 = assign_lastD [OF a]
  show lz: "length z = length dst"
    using broadcast_fit [OF d1(3)] a1(1) xb by simp
  have bz: "b < length z" using b lz by simp
  have bb: "broadcast_index (length z) b = b" "broadcast_index (length x) b = b"
    using b lz xb by (simp_all add: broadcast_index_same)
  note i1 = rotate_ops_level_index [OF r1 bz]
  have r2: "rotate_ops (broadcast_level (broadcast_level (broadcast_op1 (*))))
              (broadcast_level (broadcast_level (broadcast_op1 (+)))) (map (map rotate_half))
              (x ! b) (C ! ?cb) (S ! ?sb) = Some (z ! b)"
    using d1(4) bz bb by auto
  note d2 = rotate_ops_levelD [OF r2]
  have a2: "assign_level (assign_level (assign_vec lo hi)) (dst ! b) (z ! b) = Some (res ! b)"
    using a1(3) [OF b] bb by simp
  note A2 = a2 [unfolded assign_level_Some_iff [of "assign_level (assign_vec lo hi)"]]
  show lzb: "length (z ! b) = length (x ! b)"
    using xh
  proof
    assume "length (x ! b) = length (dst ! b)"
    then show ?thesis using broadcast_fit [OF d2(3)] A2 by simp
  next
    assume "length (x ! b) = 1 \<and> (\<forall>j<length C. length (C ! j) = 1) \<and>
             (\<forall>j<length S. length (S ! j) = 1)"
    then show ?thesis using d2(3) i1 by (simp add: broadcast_size_def)
  qed
  have hz: "?h < length (z ! b)"
    using xh h lzb by (auto simp: broadcast_index_def)
  have hh: "broadcast_index (length (z ! b)) h = ?h" using lzb by simp
  have r3: "rotate_ops (broadcast_level (broadcast_op1 (*)))
              (broadcast_level (broadcast_op1 (+))) (map rotate_half)
              (x ! b ! ?h) (C ! ?cb ! broadcast_index (length (C ! ?cb)) ?h)
              (S ! ?sb ! broadcast_index (length (S ! ?sb)) ?h) = Some (z ! b ! ?h)"
    using d2(4) hz by (auto simp: broadcast_index_idem)
  note d3 = rotate_ops_levelD [OF r3]
  have a3: "assign_level (assign_vec lo hi) (dst ! b ! h) (z ! b ! ?h) = Some (res ! b ! h)"
    using A2 h hh by auto
  note A3 = a3 [unfolded assign_level_Some_iff]
  show lzh: "length (z ! b ! ?h) = length (dst ! b ! h)"
    using broadcast_fit [OF d3(3)] A3 xt by simp
  have tt: "broadcast_index (length (z ! b ! ?h)) t = t"
    "broadcast_index (length (x ! b ! ?h)) t = t"
    using t lzh xt by (simp_all add: broadcast_index_same)
  have r4: "rotate_ops (broadcast_op1 (*)) (broadcast_op1 (+)) rotate_half (x ! b ! ?h ! t)
              (C ! ?cb ! broadcast_index (length (C ! ?cb)) ?h
                 ! broadcast_index (length (C ! ?cb ! broadcast_index (length (C ! ?cb)) ?h)) t)
              (S ! ?sb ! broadcast_index (length (S ! ?sb)) ?h
                 ! broadcast_index (length (S ! ?sb ! broadcast_index (length (S ! ?sb)) ?h)) t)
            = Some (z ! b ! ?h ! t)"
    using d3(4) t lzh tt by auto
  have a4: "assign_vec lo hi (dst ! b ! h ! t) (z ! b ! ?h ! t) = Some (res ! b ! h ! t)"
    using A3 t tt by auto
  show lv: "length (z ! b ! ?h ! t)
            = min hi (length (dst ! b ! h ! t)) - min lo (length (dst ! b ! h ! t))"
    using broadcast_fit [OF rotate_ops_vec_length [OF r4]] assign_vec_compat [OF a4] xv by simp
  show "res ! b ! h ! t =
           take lo (dst ! b ! h ! t) @ z ! b ! ?h ! t @ drop hi (dst ! b ! h ! t)"
    using a4 lv by (rule assign_vec_fit)
qed

subsection \<open>Shapes of the projections\<close>

lemma nn_linear_length:
  "linear_shape l n_in n_out \<Longrightarrow> length (nn_linear l x) = n_out"
  by (auto simp: nn_linear_def linear_shape_def linear_row_def split: option.splits)

lemma heads_lengths:
  shows "length (transpose_1_2 n (view_heads n x)) = length x"
    and "b < length x \<Longrightarrow> length (transpose_1_2 n (view_heads n x) ! b) = n"
    and "b < length x \<Longrightarrow> h < n \<Longrightarrow>
         length (transpose_1_2 n (view_heads n x) ! b ! h) = length (x ! b)"
  by (simp_all add: transpose_1_2_def view_heads_def)

lemma heads_entry:
  assumes "b < length x" "h < n" "s < length (x ! b)" "length (x ! b ! s) = n * d"
  shows "transpose_1_2 n (view_heads n x) ! b ! h ! s = take d (drop (h * d) (x ! b ! s))"
    and "length (transpose_1_2 n (view_heads n x) ! b ! h ! s) = d"
proof -
  have nd: "n * d div n = d" using assms(2) by simp
  show e: "transpose_1_2 n (view_heads n x) ! b ! h ! s = take d (drop (h * d) (x ! b ! s))"
    using assms by (simp add: transpose_1_2_def view_heads_def view_groups_def nd)
  have "h * d + d \<le> n * d"
    using assms(2) by (metis Suc_leI mult_Suc mult_le_mono1 add.commute)
  then show "length (transpose_1_2 n (view_heads n x) ! b ! h ! s) = d"
    unfolding e using assms(4) by simp
qed

lemma new_empty_shape:
  shows "length (new_empty hs n d u) = length hs"
    and "b < length hs \<Longrightarrow> length (new_empty hs n d u ! b) = n"
    and "b < length hs \<Longrightarrow> h < n \<Longrightarrow> length (new_empty hs n d u ! b ! h) = length (hs ! b)"
    and "b < length hs \<Longrightarrow> h < n \<Longrightarrow> s < length (hs ! b) \<Longrightarrow>
         new_empty hs n d u ! b ! h ! s = replicate d u"
  by (simp_all add: new_empty_def)

lemma attn_shapes_okD:
  assumes "attn_shapes_ok m hs"
  shows "0 < num_heads m"
    and "q_head_dim m = qk_nope_head_dim m + qk_rope_head_dim m"
    and "linear_shape (q_b_proj m) (q_lora_rank m) (num_heads m * q_head_dim m)"
    and "linear_shape (kv_a_proj_with_mqa m) (attn_hidden_size m)
           (kv_lora_rank m + qk_rope_head_dim m)"
    and "linear_shape (kv_b_proj m) (kv_lora_rank m)
           (num_heads m * (qk_nope_head_dim m + v_head_dim m))"
  using assms unfolding attn_shapes_ok_def by auto

lemma attn_q_proj_shape:
  assumes "attn_shapes_ok m hs"
  shows "length (attn_q_proj m hs) = length hs"
    and "b < length hs \<Longrightarrow> length (attn_q_proj m hs ! b) = length (hs ! b)"
    and "b < length hs \<Longrightarrow> s < length (hs ! b) \<Longrightarrow>
         length (attn_q_proj m hs ! b ! s) = num_heads m * q_head_dim m"
  using attn_shapes_okD(3) [OF assms]
  by (simp_all add: attn_q_proj_def nn_linear_length)

lemma attn_kv_proj_shape:
  assumes "attn_shapes_ok m hs"
  shows "length (attn_kv_proj m hs) = length hs"
    and "b < length hs \<Longrightarrow> length (attn_kv_proj m hs ! b) = length (hs ! b)"
    and "b < length hs \<Longrightarrow> s < length (hs ! b) \<Longrightarrow>
         length (attn_kv_proj m hs ! b ! s) = num_heads m * (qk_nope_head_dim m + v_head_dim m)"
  using attn_shapes_okD(5) [OF assms]
  by (simp_all add: attn_kv_proj_def attn_compressed_kv_def nn_linear_length)

lemma attn_q_shape:
  assumes ok: "attn_shapes_ok m hs"
  shows "length (attn_q m hs) = length hs"
    and "b < length hs \<Longrightarrow> length (attn_q m hs ! b) = num_heads m"
    and "b < length hs \<Longrightarrow> h < num_heads m \<Longrightarrow> length (attn_q m hs ! b ! h) = length (hs ! b)"
    and "b < length hs \<Longrightarrow> h < num_heads m \<Longrightarrow> s < length (hs ! b) \<Longrightarrow>
         attn_q m hs ! b ! h ! s =
           take (q_head_dim m) (drop (h * q_head_dim m) (attn_q_proj m hs ! b ! s))"
    and "b < length hs \<Longrightarrow> h < num_heads m \<Longrightarrow> s < length (hs ! b) \<Longrightarrow>
         length (attn_q m hs ! b ! h ! s) = q_head_dim m"
proof -
  note p = attn_q_proj_shape [OF ok]
  show "length (attn_q m hs) = length hs"
    unfolding attn_q_def by (simp add: heads_lengths p)
  show "length (attn_q m hs ! b) = num_heads m" if "b < length hs" for b
    unfolding attn_q_def using that by (simp add: heads_lengths p)
  show "length (attn_q m hs ! b ! h) = length (hs ! b)" if "b < length hs" "h < num_heads m" for b h
    unfolding attn_q_def using that by (simp add: heads_lengths p)
  show "attn_q m hs ! b ! h ! s =
           take (q_head_dim m) (drop (h * q_head_dim m) (attn_q_proj m hs ! b ! s))"
    if "b < length hs" "h < num_heads m" "s < length (hs ! b)" for b h s
    unfolding attn_q_def using that p by (intro heads_entry(1)) simp_all
  show "length (attn_q m hs ! b ! h ! s) = q_head_dim m"
    if "b < length hs" "h < num_heads m" "s < length (hs ! b)" for b h s
    unfolding attn_q_def using that p by (intro heads_entry(2)) simp_all
qed

lemma attn_kv_shape:
  assumes ok: "attn_shapes_ok m hs"
  shows "length (attn_kv m hs) = length hs"
    and "b < length hs \<Longrightarrow> length (attn_kv m hs ! b) = num_heads m"
    and "b < length hs \<Longrightarrow> h < num_heads m \<Longrightarrow> length (attn_kv m hs ! b ! h) = length (hs ! b)"
    and "b < length hs \<Longrightarrow> h < num_heads m \<Longrightarrow> s < length (hs ! b) \<Longrightarrow>
         attn_kv m hs ! b ! h ! s =
           take (qk_nope_head_dim m + v_head_dim m)
             (drop (h * (qk_nope_head_dim m + v_head_dim m)) (attn_kv_proj m hs ! b ! s))"
    and "b < length hs \<Longrightarrow> h < num_heads m \<Longrightarrow> s < length (hs ! b) \<Longrightarrow>
         length (attn_kv m hs ! b ! h ! s) = qk_nope_head_dim m + v_head_dim m"
proof -
  note p = attn_kv_proj_shape [OF ok]
  show "length (attn_kv m hs) = length hs"
    unfolding attn_kv_def by (simp add: heads_lengths p)
  show "length (attn_kv m hs ! b) = num_heads m" if "b < length hs" for b
    unfolding attn_kv_def using that by (simp add: heads_lengths p)
  show "length (attn_kv m hs ! b ! h) = length (hs ! b)" if "b < length hs" "h < num_heads m" for b h
    unfolding attn_kv_def using that by (simp add: heads_lengths p)
  show "attn_kv m hs ! b ! h ! s =
           take (qk_nope_head_dim m + v_head_dim m)
             (drop (h * (qk_nope_head_dim m + v_head_dim m)) (attn_kv_proj m hs ! b ! s))"
    if "b < length hs" "h < num_heads m" "s < length (hs ! b)" for b h s
    unfolding attn_kv_def using that p by (intro heads_entry(1)) simp_all
  show "length (attn_kv m hs ! b ! h ! s) = qk_nope_head_dim m + v_head_dim m"
    if "b < length hs" "h < num_heads m" "s < length (hs ! b)" for b h s
    unfolding attn_kv_def using that p by (intro heads_entry(2)) simp_all
qed


lemma assign_last_fit:
  assumes a: "assign_last lo hi dst src = Some res"
    and b: "b < length dst" and h: "h < length (dst ! b)" and t: "t < length (dst ! b ! h)"
    and sb: "length src = length dst" and sh: "length (src ! b) = length (dst ! b)"
    and st: "length (src ! b ! h) = length (dst ! b ! h)"
    and sv: "length (src ! b ! h ! t)
             = min hi (length (dst ! b ! h ! t)) - min lo (length (dst ! b ! h ! t))"
  shows "res ! b ! h ! t = take lo (dst ! b ! h ! t) @ src ! b ! h ! t @ drop hi (dst ! b ! h ! t)"
proof -
  note a1 = assign_lastD [OF a]
  have a2: "assign_level (assign_level (assign_vec lo hi)) (dst ! b) (src ! b) = Some (res ! b)"
    using a1(3) [OF b] b sb by (simp add: broadcast_index_same)
  note A2 = a2 [unfolded assign_level_Some_iff [of "assign_level (assign_vec lo hi)"]]
  have a3: "assign_level (assign_vec lo hi) (dst ! b ! h) (src ! b ! h) = Some (res ! b ! h)"
    using A2 h sh by (auto simp: broadcast_index_same)
  note A3 = a3 [unfolded assign_level_Some_iff]
  have a4: "assign_vec lo hi (dst ! b ! h ! t) (src ! b ! h ! t) = Some (res ! b ! h ! t)"
    using A3 t st by (auto simp: broadcast_index_same)
  show ?thesis using a4 sv by (rule assign_vec_fit)
qed

lemma assign_last_shape:
  assumes a: "assign_last lo hi dst src = Some res"
  shows "length res = length dst"
    and "b < length dst \<Longrightarrow> length (res ! b) = length (dst ! b)"
    and "b < length dst \<Longrightarrow> h < length (dst ! b) \<Longrightarrow> length (res ! b ! h) = length (dst ! b ! h)"
proof -
  note a1 = assign_lastD [OF a]
  show "length res = length dst" by (rule a1(2))
  show lb: "length (res ! b) = length (dst ! b)" if "b < length dst" for b
    using a1(3) [OF that] unfolding assign_level_Some_iff [of "assign_level (assign_vec lo hi)"]
    by blast
  show "length (res ! b ! h) = length (dst ! b ! h)" if "b < length dst" "h < length (dst ! b)" for b h
  proof -
    from a1(3) [OF that(1)] that(2)
    have "assign_level (assign_vec lo hi) (dst ! b ! h)
            (src ! broadcast_index (length src) b
               ! broadcast_index (length (src ! broadcast_index (length src) b)) h)
          = Some (res ! b ! h)"
      unfolding assign_level_Some_iff [of "assign_level (assign_vec lo hi)"] by blast
    then show ?thesis unfolding assign_level_Some_iff by blast
  qed
qed

lemma attn_statesD:
  assumes "attn_states m uninit hs cos_t sin_t = Some (query_states, key_states, value_states)"
  obtains q_pe k_pe q_states k_states where
    "attn_shapes_ok m hs"
    "apply_rotary_pos_emb (snd (split_last (qk_nope_head_dim m) (attn_q m hs))) (attn_k_pe m hs)
       cos_t sin_t = Some (q_pe, k_pe)"
    "assign_last 0 (qk_nope_head_dim m) (new_empty hs (num_heads m) (q_head_dim m) uninit)
       (map (map (map (take (qk_nope_head_dim m)))) (attn_q m hs)) = Some q_states"
    "assign_last (qk_nope_head_dim m) (q_head_dim m) q_states q_pe = Some query_states"
    "assign_last 0 (qk_nope_head_dim m) (new_empty hs (num_heads m) (q_head_dim m) uninit)
       (map (map (map (take (qk_nope_head_dim m)))) (attn_kv m hs)) = Some k_states"
    "assign_last (qk_nope_head_dim m) (q_head_dim m) k_states k_pe = Some key_states"
    "value_states =
       (if attn_implementation m = ''flash_attention_2'' \<and> q_head_dim m \<noteq> v_head_dim m
        then pad_last (q_head_dim m) (v_head_dim m)
               (map (map (map (drop (qk_nope_head_dim m)))) (attn_kv m hs))
        else map (map (map (drop (qk_nope_head_dim m)))) (attn_kv m hs))"
  using assms
  by (auto simp: attn_states_def split_last_def Let_def split: if_splits option.splits)

lemma unsqueeze_1_heads: "\<forall>j<length (unsqueeze_1 t). length (unsqueeze_1 t ! j) = 1"
  by (simp add: unsqueeze_1_def)

lemma attn_k_pe_shape:
  assumes ok: "attn_shapes_ok m hs"
  shows "length (attn_k_pe m hs) = length hs"
    and "b < length hs \<Longrightarrow> length (attn_k_pe m hs ! b) = 1"
    and "b < length hs \<Longrightarrow> length (attn_k_pe m hs ! b ! 0) = length (hs ! b)"
    and "b < length hs \<Longrightarrow> s < length (hs ! b) \<Longrightarrow>
         attn_k_pe m hs ! b ! 0 ! s = drop (kv_lora_rank m) (attn_compressed_kv m hs ! b ! s)"
    and "b < length hs \<Longrightarrow> s < length (hs ! b) \<Longrightarrow>
         length (attn_k_pe m hs ! b ! 0 ! s) = qk_rope_head_dim m"
  using attn_shapes_okD(4) [OF ok]
  by (simp_all add: attn_k_pe_def attn_compressed_kv_def nn_linear_length)

lemma assembled_entry:
  assumes a1: "assign_last 0 lo (new_empty hs n d u) nope_t = Some d1"
    and a2: "assign_last lo d d1 z = Some d2"
    and r: "rotate_embed (interleave_last x) (unsqueeze_1 cos_t) (unsqueeze_1 sin_t) = Some z"
    and ev: "last_dim_even x"
    and b: "b < length hs" and h: "h < n" and s: "s < length (hs ! b)"
    and nb: "length nope_t = length hs" "length (nope_t ! b) = n"
      "length (nope_t ! b ! h) = length (hs ! b)" "length (nope_t ! b ! h ! s) = lo"
    and lo: "lo \<le> d"
    and xb: "length x = length hs" and xh: "length (x ! b) = n \<or> length (x ! b) = 1"
    and xs: "length (x ! b ! broadcast_index (length (x ! b)) h) = length (hs ! b)"
    and xv: "length (x ! b ! broadcast_index (length (x ! b)) h ! s) = d - lo"
  shows "d2 ! b ! h ! s = nope_t ! b ! h ! s @ z ! b ! broadcast_index (length (x ! b)) h ! s"
    and "length (z ! b ! broadcast_index (length (x ! b)) h ! s) = d - lo"
    and "length (z ! b) = length (x ! b)"
proof -
  let ?e = "new_empty hs n d u"
  let ?h = "broadcast_index (length (x ! b)) h"
  note e = new_empty_shape [where hs = hs and n = n and d = d and u = u]
  have be: "b < length ?e" "h < length (?e ! b)" "s < length (?e ! b ! h)"
    using b h s e(1) e(2) [OF b] e(3) [OF b h] by simp_all
  have ev0: "length (?e ! b ! h ! s) = d" using e(4) [OF b h s] by simp
  have d1e: "d1 ! b ! h ! s = nope_t ! b ! h ! s @ replicate (d - lo) u"
    using assign_last_fit [OF a1 be] nb e(1) e(2) [OF b] e(3) [OF b h] e(4) [OF b h s] lo
    by simp
  note s1 = assign_last_shape [OF a1]
  have b1: "b < length d1" "h < length (d1 ! b)" "s < length (d1 ! b ! h)"
    using s1(1) s1(2) [OF be(1)] s1(3) [OF be(1,2)] be by simp_all
  have l1: "length d1 = length hs" "length (d1 ! b) = n" "length (d1 ! b ! h) = length (hs ! b)"
    using s1(1) s1(2) [OF be(1)] s1(3) [OF be(1,2)] e(1) e(2) [OF b] e(3) [OF b h] by simp_all
  have lv1: "length (d1 ! b ! h ! s) = d" unfolding d1e using nb(4) lo by simp
  have hx: "?h < length (x ! b)" using xh h by (auto simp: broadcast_index_def)
  have bx: "b < length x" using b xb by simp
  have sx: "s < length (x ! b ! ?h)" using s xs by simp
  have il: "length (interleave_last x) = length d1"
    "length (interleave_last x ! b) = length (x ! b)"
    "length (interleave_last x ! b ! ?h) = length (d1 ! b ! h)"
    using bx hx xb xs l1 by (simp_all add: interleave_last_def)
  have ilv: "length (interleave_last x ! b ! ?h ! s) = d - lo"
    using bx hx sx xv last_dim_evenD [OF ev bx hx sx]
    by (simp add: interleave_last_def interleave_pairs_length)
  have w: "min d (length (d1 ! b ! h ! s)) - min lo (length (d1 ! b ! h ! s)) = d - lo"
    using lv1 lo by simp
  have xh': "length (interleave_last x ! b) = length (d1 ! b) \<or>
             length (interleave_last x ! b) = 1 \<and>
             (\<forall>j<length (unsqueeze_1 cos_t). length (unsqueeze_1 cos_t ! j) = 1) \<and>
             (\<forall>j<length (unsqueeze_1 sin_t). length (unsqueeze_1 sin_t ! j) = 1)"
    using xh il(2) l1(2) unsqueeze_1_heads by auto
  note ra = rotate_embed_assigned [OF r a2 b1 il(1) xh', unfolded il(2), OF il(3), unfolded w, OF ilv]
  show "length (z ! b) = length (x ! b)" by (rule ra(2))
  show "length (z ! b ! ?h ! s) = d - lo" by (rule ra(4))
  show "d2 ! b ! h ! s = nope_t ! b ! h ! s @ z ! b ! ?h ! s"
    unfolding ra(5) d1e using nb(4) lo by simp
qed

subsection \<open>The assembled query and key states\<close>

lemma attn_states_entries:
  assumes st: "attn_states m uninit hs cos_t sin_t = Some (query_states, key_states, value_states)"
    and ap: "apply_rotary_pos_emb (snd (split_last (qk_nope_head_dim m) (attn_q m hs)))
               (attn_k_pe m hs) cos_t sin_t = Some (q_pe, k_pe)"
    and b: "b < length hs" and h: "h < num_heads m" and s: "s < length (hs ! b)"
  shows "query_states ! b ! h ! s = take (qk_nope_head_dim m) (attn_q m hs ! b ! h ! s) @ q_pe ! b ! h ! s"
    and "key_states ! b ! h ! s = take (qk_nope_head_dim m) (attn_kv m hs ! b ! h ! s) @ k_pe ! b ! 0 ! s"
    and "length (q_pe ! b ! h ! s) = qk_rope_head_dim m"
    and "length (k_pe ! b ! 0 ! s) = qk_rope_head_dim m"
    and "length (q_pe ! b) = num_heads m"
    and "length (k_pe ! b) = 1"
proof -
  from st obtain q_pe' k_pe' q_states k_states where
    ok: "attn_shapes_ok m hs"
    and ap': "apply_rotary_pos_emb (snd (split_last (qk_nope_head_dim m) (attn_q m hs)))
               (attn_k_pe m hs) cos_t sin_t = Some (q_pe', k_pe')"
    and q1: "assign_last 0 (qk_nope_head_dim m) (new_empty hs (num_heads m) (q_head_dim m) uninit)
       (map (map (map (take (qk_nope_head_dim m)))) (attn_q m hs)) = Some q_states"
    and q2: "assign_last (qk_nope_head_dim m) (q_head_dim m) q_states q_pe' = Some query_states"
    and k1: "assign_last 0 (qk_nope_head_dim m) (new_empty hs (num_heads m) (q_head_dim m) uninit)
       (map (map (map (take (qk_nope_head_dim m)))) (attn_kv m hs)) = Some k_states"
    and k2: "assign_last (qk_nope_head_dim m) (q_head_dim m) k_states k_pe' = Some key_states"
    by (rule attn_statesD)
  from ap ap' have same: "q_pe' = q_pe" "k_pe' = k_pe" by simp_all
  note rd = apply_rotary_pos_embD [OF ap]
  note qs = attn_q_shape [OF ok] and ks = attn_kv_shape [OF ok] and kp = attn_k_pe_shape [OF ok]
  note dims = attn_shapes_okD [OF ok]
  let ?qp = "snd (split_last (qk_nope_head_dim m) (attn_q m hs))"
  let ?qn = "map (map (map (take (qk_nope_head_dim m)))) (attn_q m hs)"
  let ?kn = "map (map (map (take (qk_nope_head_dim m)))) (attn_kv m hs)"
  have lo: "qk_nope_head_dim m \<le> q_head_dim m"
    and w: "q_head_dim m - qk_nope_head_dim m = qk_rope_head_dim m"
    using dims(2) by simp_all
  have qp: "length ?qp = length hs" "length (?qp ! b) = num_heads m"
    "length (?qp ! b ! h) = length (hs ! b)"
    "length (?qp ! b ! h ! s) = q_head_dim m - qk_nope_head_dim m"
    using b h s qs(1) qs(2) [OF b] qs(3) [OF b h] qs(5) [OF b h s]
    by (simp_all add: split_last_def)
  have qn: "length ?qn = length hs" "length (?qn ! b) = num_heads m"
    "length (?qn ! b ! h) = length (hs ! b)"
    "length (?qn ! b ! h ! s) = qk_nope_head_dim m"
    "?qn ! b ! h ! s = take (qk_nope_head_dim m) (attn_q m hs ! b ! h ! s)"
    using b h s qs(1) qs(2) [OF b] qs(3) [OF b h] qs(5) [OF b h s] lo by simp_all
  have hq: "broadcast_index (length (?qp ! b)) h = h"
    using h qp(2) by (simp add: broadcast_index_same)
  note eq = assembled_entry [OF q1 q2 [unfolded same] rd(3) rd(1) b h s qn(1-4) lo qp(1),
      unfolded hq, OF _ qp(3) qp(4)]
  show "query_states ! b ! h ! s
        = take (qk_nope_head_dim m) (attn_q m hs ! b ! h ! s) @ q_pe ! b ! h ! s"
    using eq(1) qp(2) qn(5) by simp
  show "length (q_pe ! b ! h ! s) = qk_rope_head_dim m" using eq(2) qp(2) w by simp
  show "length (q_pe ! b) = num_heads m" using eq(3) qp(2) by simp
  have kn: "length ?kn = length hs" "length (?kn ! b) = num_heads m"
    "length (?kn ! b ! h) = length (hs ! b)"
    "length (?kn ! b ! h ! s) = qk_nope_head_dim m"
    "?kn ! b ! h ! s = take (qk_nope_head_dim m) (attn_kv m hs ! b ! h ! s)"
    using b h s ks(1) ks(2) [OF b] ks(3) [OF b h] ks(5) [OF b h s] by simp_all
  have hk: "broadcast_index (length (attn_k_pe m hs ! b)) h = 0"
    using kp(2) [OF b] by (simp add: broadcast_index_def)
  have kw: "length (attn_k_pe m hs ! b ! 0 ! s) = q_head_dim m - qk_nope_head_dim m"
    using kp(5) [OF b s] w by simp
  note ek = assembled_entry [OF k1 k2 [unfolded same] rd(4) rd(2) b h s kn(1-4) lo kp(1),
      unfolded hk, OF _ kp(3) [OF b] kw]
  show "key_states ! b ! h ! s
        = take (qk_nope_head_dim m) (attn_kv m hs ! b ! h ! s) @ k_pe ! b ! 0 ! s"
    using ek(1) kp(2) [OF b] kn(5) by simp
  show "length (k_pe ! b ! 0 ! s) = qk_rope_head_dim m" using ek(2) kp(2) [OF b] w by simp
  show "length (k_pe ! b) = 1" using ek(3) kp(2) [OF b] by simp
qed

lemma attn_states_rotary:
  assumes "attn_states m uninit hs cos_t sin_t = Some (query_states, key_states, value_states)"
  shows "\<exists>q_pe k_pe. apply_rotary_pos_emb (snd (split_last (qk_nope_head_dim m) (attn_q m hs)))
               (attn_k_pe m hs) cos_t sin_t = Some (q_pe, k_pe)"
  using assms by (rule attn_statesD) blast

text \<open>
  A call with two batches of hidden states and rotary tables of batch size 1, which are
  broadcast over the batches.
\<close>

lemma ex_attention_states:
  "attn_states ex_attention 99 [[[1], [2]], [[3], [4]]] [[[0, 0], [0, 0]]] [[[1, 1], [1, 1]]] =
     Some ([[[[1, - 3, 2], [2, - 6, 4]], [[4, - 6, 5], [8, - 12, 10]]],
            [[[3, - 9, 6], [4, - 12, 8]], [[12, - 18, 15], [16, - 24, 20]]]],
           [[[[10, - 8, 7], [20, - 16, 14]], [[30, - 8, 7], [60, - 16, 14]]],
            [[[30, - 24, 21], [40, - 32, 28]], [[90, - 24, 21], [120, - 32, 28]]]],
           [[[[20, 0, 0], [40, 0, 0]], [[40, 0, 0], [80, 0, 0]]],
            [[[60, 0, 0], [80, 0, 0]], [[120, 0, 0], [160, 0, 0]]]])"
  by code_simp

text \<open>
  C7. In every call that reaches the kernel, whatever the rotary tables are and are
  broadcast to: in the query and key states assembled before the kernel call, the content
  channels of every head are the values of the projections (\<^verbatim>\<open>q_b_proj\<close> and
  \<^verbatim>\<open>kv_b_proj\<close>); the channels after them are the rotated positional channels, and there
  are \<open>qk_rope_head_dim\<close> of them.
\<close>

theorem attention_content_channels_unrotated:
  assumes st: "attn_states m uninit hs cos_t sin_t = Some (query_states, key_states, value_states)"
    and b: "b < length hs" and h: "h < num_heads m" and s: "s < length (hs ! b)"
    and c: "c < qk_nope_head_dim m"
  shows "query_states ! b ! h ! s ! c = attn_q m hs ! b ! h ! s ! c \<and>
         query_states ! b ! h ! s ! c = attn_q_proj m hs ! b ! s ! (h * q_head_dim m + c) \<and>
         key_states ! b ! h ! s ! c = attn_kv m hs ! b ! h ! s ! c \<and>
         key_states ! b ! h ! s ! c =
           attn_kv_proj m hs ! b ! s ! (h * (qk_nope_head_dim m + v_head_dim m) + c) \<and>
         length (query_states ! b ! h ! s) = qk_nope_head_dim m + qk_rope_head_dim m \<and>
         length (key_states ! b ! h ! s) = qk_nope_head_dim m + qk_rope_head_dim m \<and>
         (\<exists>q_pe k_pe.
            apply_rotary_pos_emb (snd (split_last (qk_nope_head_dim m) (attn_q m hs)))
              (attn_k_pe m hs) cos_t sin_t = Some (q_pe, k_pe) \<and>
            drop (qk_nope_head_dim m) (query_states ! b ! h ! s) = q_pe ! b ! h ! s \<and>
            drop (qk_nope_head_dim m) (key_states ! b ! h ! s) = k_pe ! b ! 0 ! s)"
proof -
  from st obtain q_pe k_pe where ok: "attn_shapes_ok m hs"
    and ap: "apply_rotary_pos_emb (snd (split_last (qk_nope_head_dim m) (attn_q m hs)))
               (attn_k_pe m hs) cos_t sin_t = Some (q_pe, k_pe)"
    by (rule attn_statesD)
  note e = attn_states_entries [OF st ap b h s]
  note qs = attn_q_shape [OF ok] and ks = attn_kv_shape [OF ok]
  note dims = attn_shapes_okD [OF ok]
  note qp = attn_q_proj_shape [OF ok] and kp = attn_kv_proj_shape [OF ok]
  have cq: "c < q_head_dim m" using c dims(2) by simp
  have lq: "length (take (qk_nope_head_dim m) (attn_q m hs ! b ! h ! s)) = qk_nope_head_dim m"
    using qs(5) [OF b h s] dims(2) by simp
  have lk: "length (take (qk_nope_head_dim m) (attn_kv m hs ! b ! h ! s)) = qk_nope_head_dim m"
    using ks(5) [OF b h s] by simp
  have q1: "query_states ! b ! h ! s ! c = attn_q m hs ! b ! h ! s ! c"
    unfolding e(1) using c lq by (simp add: nth_append)
  have k1: "key_states ! b ! h ! s ! c = attn_kv m hs ! b ! h ! s ! c"
    unfolding e(2) using c lk by (simp add: nth_append)
  have "h * q_head_dim m + q_head_dim m \<le> num_heads m * q_head_dim m"
    using h by (metis Suc_leI mult_Suc mult_le_mono1 add.commute)
  then have "h * q_head_dim m \<le> length (attn_q_proj m hs ! b ! s)"
    unfolding qp(3) [OF b s] by linarith
  then have q2: "attn_q m hs ! b ! h ! s ! c = attn_q_proj m hs ! b ! s ! (h * q_head_dim m + c)"
    unfolding qs(4) [OF b h s] using cq by (simp add: nth_drop)
  have "h * (qk_nope_head_dim m + v_head_dim m) + (qk_nope_head_dim m + v_head_dim m)
          \<le> num_heads m * (qk_nope_head_dim m + v_head_dim m)"
    using h by (metis Suc_leI mult_Suc mult_le_mono1 add.commute)
  then have "h * (qk_nope_head_dim m + v_head_dim m) \<le> length (attn_kv_proj m hs ! b ! s)"
    unfolding kp(3) [OF b s] by linarith
  then have k2: "attn_kv m hs ! b ! h ! s ! c =
      attn_kv_proj m hs ! b ! s ! (h * (qk_nope_head_dim m + v_head_dim m) + c)"
    unfolding ks(4) [OF b h s] using c by (simp add: nth_drop)
  have q3: "length (query_states ! b ! h ! s) = qk_nope_head_dim m + qk_rope_head_dim m"
    unfolding e(1) using lq e(3) by simp
  have k3: "length (key_states ! b ! h ! s) = qk_nope_head_dim m + qk_rope_head_dim m"
    unfolding e(2) using lk e(4) by simp
  have q4: "drop (qk_nope_head_dim m) (query_states ! b ! h ! s) = q_pe ! b ! h ! s"
    unfolding e(1) using lq by simp
  have k4: "drop (qk_nope_head_dim m) (key_states ! b ! h ! s) = k_pe ! b ! 0 ! s"
    unfolding e(2) using lk by simp
  show ?thesis using q1 q2 k1 k2 q3 k3 ap q4 k4 by simp
qed

theorem attention_content_channels_unrotated_witness:
  "attn_states ex_attention 99 [[[1], [2]], [[3], [4]]] [[[0, 0], [0, 0]]] [[[1, 1], [1, 1]]] =
     Some ([[[[1, - 3, 2], [2, - 6, 4]], [[4, - 6, 5], [8, - 12, 10]]],
            [[[3, - 9, 6], [4, - 12, 8]], [[12, - 18, 15], [16, - 24, 20]]]],
           [[[[10, - 8, 7], [20, - 16, 14]], [[30, - 8, 7], [60, - 16, 14]]],
            [[[30, - 24, 21], [40, - 32, 28]], [[90, - 24, 21], [120, - 32, 28]]]],
           [[[[20, 0, 0], [40, 0, 0]], [[40, 0, 0], [80, 0, 0]]],
            [[[60, 0, 0], [80, 0, 0]], [[120, 0, 0], [160, 0, 0]]]]) \<and>
   [[[[1, - 3, 2], [2, - 6, 4]], [[4, - 6, 5], [8, - 12, 10]]],
    [[[3, - 9, 6], [4, - 12, 8]], [[12, - 18, 15], [16, - 24, 20]]]] ! 1 ! 1 ! 1 ! 0
     = attn_q_proj ex_attention [[[1], [2]], [[3], [4]]] ! 1 ! 1 ! (1 * q_head_dim ex_attention + 0) \<and>
   [[[[10, - 8, 7], [20, - 16, 14]], [[30, - 8, 7], [60, - 16, 14]]],
    [[[30, - 24, 21], [40, - 32, 28]], [[90, - 24, 21], [120, - 32, 28]]]] ! 1 ! 1 ! 1 ! 0
     = attn_kv_proj ex_attention [[[1], [2]], [[3], [4]]] ! 1 ! 1 !
         (1 * (qk_nope_head_dim ex_attention + v_head_dim ex_attention) + 0)"
proof -
  have b: "1 < length [[[1 :: real], [2]], [[3], [4]]]" by simp
  have h: "1 < num_heads ex_attention" by (simp add: ex_attention_def)
  have s: "1 < length ([[[1 :: real], [2]], [[3], [4]]] ! 1)" by simp
  have c: "0 < qk_nope_head_dim ex_attention" by (simp add: ex_attention_def)
  show ?thesis
    using attention_content_channels_unrotated [OF ex_attention_states b h s c] ex_attention_states
    by blast
qed

text \<open>
  C10. In every call that reaches the kernel, whatever the rotary tables are broadcast
  to: the positional channels of the assembled key states are the same in every head.
  The rotated positional key has a single head, and its vector at a batch and a position
  is written to all heads.
\<close>

theorem attention_key_rope_shared_across_heads:
  assumes st: "attn_states m uninit hs cos_t sin_t = Some (query_states, key_states, value_states)"
    and b: "b < length hs" and s: "s < length (hs ! b)"
    and h1: "h1 < num_heads m" and h2: "h2 < num_heads m"
  shows "drop (qk_nope_head_dim m) (key_states ! b ! h1 ! s) =
         drop (qk_nope_head_dim m) (key_states ! b ! h2 ! s) \<and>
         length (drop (qk_nope_head_dim m) (key_states ! b ! h1 ! s)) = qk_rope_head_dim m \<and>
         (\<exists>q_pe k_pe.
            apply_rotary_pos_emb (snd (split_last (qk_nope_head_dim m) (attn_q m hs)))
              (attn_k_pe m hs) cos_t sin_t = Some (q_pe, k_pe) \<and>
            length (k_pe ! b) = 1 \<and>
            drop (qk_nope_head_dim m) (key_states ! b ! h1 ! s) = k_pe ! b ! 0 ! s)"
proof -
  from st obtain q_pe k_pe where ok: "attn_shapes_ok m hs"
    and ap: "apply_rotary_pos_emb (snd (split_last (qk_nope_head_dim m) (attn_q m hs)))
               (attn_k_pe m hs) cos_t sin_t = Some (q_pe, k_pe)"
    by (rule attn_statesD)
  note ks = attn_kv_shape [OF ok]
  note e1 = attn_states_entries [OF st ap b h1 s] and e2 = attn_states_entries [OF st ap b h2 s]
  have l: "length (take (qk_nope_head_dim m) (attn_kv m hs ! b ! h ! s)) = qk_nope_head_dim m"
    if "h < num_heads m" for h
    using ks(5) [OF b that s] by simp
  have d1: "drop (qk_nope_head_dim m) (key_states ! b ! h1 ! s) = k_pe ! b ! 0 ! s"
    unfolding e1(2) using l [OF h1] by simp
  have d2: "drop (qk_nope_head_dim m) (key_states ! b ! h2 ! s) = k_pe ! b ! 0 ! s"
    unfolding e2(2) using l [OF h2] by simp
  show ?thesis using d1 d2 e1(4) e1(6) ap by simp
qed

theorem attention_key_rope_shared_across_heads_witness:
  "attn_states ex_attention 99 [[[1], [2]], [[3], [4]]] [[[0, 0], [0, 0]]] [[[1, 1], [1, 1]]] =
     Some ([[[[1, - 3, 2], [2, - 6, 4]], [[4, - 6, 5], [8, - 12, 10]]],
            [[[3, - 9, 6], [4, - 12, 8]], [[12, - 18, 15], [16, - 24, 20]]]],
           [[[[10, - 8, 7], [20, - 16, 14]], [[30, - 8, 7], [60, - 16, 14]]],
            [[[30, - 24, 21], [40, - 32, 28]], [[90, - 24, 21], [120, - 32, 28]]]],
           [[[[20, 0, 0], [40, 0, 0]], [[40, 0, 0], [80, 0, 0]]],
            [[[60, 0, 0], [80, 0, 0]], [[120, 0, 0], [160, 0, 0]]]]) \<and>
   drop (qk_nope_head_dim ex_attention)
     ([[[[10, - 8, 7], [20, - 16, 14]], [[30, - 8, 7], [60, - 16, 14]]],
       [[[30, - 24, 21], [40, - 32, 28]], [[90, - 24, 21], [120, - 32, 28]]]] ! 1 ! 0 ! 1) =
   drop (qk_nope_head_dim ex_attention)
     ([[[[10, - 8, 7], [20, - 16, 14]], [[30, - 8, 7], [60, - 16, 14]]],
       [[[30, - 24, 21], [40, - 32, 28]], [[90, - 24, 21], [120, - 32, 28 :: real]]]] ! 1 ! 1 ! 1)"
proof -
  have b: "1 < length [[[1 :: real], [2]], [[3], [4]]]" by simp
  have h0: "0 < num_heads ex_attention" by (simp add: ex_attention_def)
  have h1: "1 < num_heads ex_attention" by (simp add: ex_attention_def)
  have s: "1 < length ([[[1 :: real], [2]], [[3], [4]]] ! 1)" by simp
  show ?thesis
    using attention_key_rope_shared_across_heads [OF ex_attention_states b s h0 h1]
      ex_attention_states
    by blast
qed

subsection \<open>The padded values\<close>

lemma last_dim_is_iff:
  "last_dim_is n x \<longleftrightarrow>
     (\<forall>b < length x. \<forall>h < length (x ! b). \<forall>s < length (x ! b ! h). length (x ! b ! h ! s) = n)"
  by (simp add: last_dim_is_def list_all_length)

lemma last_dim_is_map:
  assumes "last_dim_is n x" and "\<And>xv. length xv = n \<Longrightarrow> length (f xv) = n'"
  shows "last_dim_is n' (map (map (map f)) x)"
  using assms by (simp add: last_dim_is_iff)

lemma attn_states_values_last_dim:
  assumes st: "attn_states m uninit hs cos_t sin_t = Some (query_states, key_states, value_states)"
    and flash: "attn_implementation m = ''flash_attention_2''"
    and vq: "v_head_dim m < q_head_dim m"
  shows "last_dim_is (q_head_dim m) value_states"
proof -
  from st obtain q_pe k_pe q_states k_states where ok: "attn_shapes_ok m hs"
    and V: "value_states =
       (if attn_implementation m = ''flash_attention_2'' \<and> q_head_dim m \<noteq> v_head_dim m
        then pad_last (q_head_dim m) (v_head_dim m)
               (map (map (map (drop (qk_nope_head_dim m)))) (attn_kv m hs))
        else map (map (map (drop (qk_nope_head_dim m)))) (attn_kv m hs))"
    by (rule attn_statesD)
  note ks = attn_kv_shape [OF ok]
  have kv: "last_dim_is (qk_nope_head_dim m + v_head_dim m) (attn_kv m hs)"
    unfolding last_dim_is_iff using ks by simp
  have v: "last_dim_is (v_head_dim m) (map (map (map (drop (qk_nope_head_dim m)))) (attn_kv m hs))"
    using kv by (rule last_dim_is_map) simp
  have "last_dim_is (q_head_dim m)
          (map (map (map (\<lambda>xv. xv @ replicate (q_head_dim m - v_head_dim m) 0)))
             (map (map (map (drop (qk_nope_head_dim m)))) (attn_kv m hs)))"
    using v by (rule last_dim_is_map) (use vq in simp)
  then show ?thesis unfolding V pad_last_def using flash vq by simp
qed

text \<open>
  C9. In every call that reaches the kernel, whatever the rotary tables are broadcast to:
  on the \<^verbatim>\<open>flash_attention_2\<close> path with \<open>v_head_dim < q_head_dim\<close> the values are
  padded with zeros to \<open>q_head_dim\<close>; when the kernel (and the cache, if there is one)
  returns the last dimension it is given, every head of the attention output has
  exactly \<open>v_head_dim\<close> channels, which are the first \<open>v_head_dim\<close> channels of the
  kernel's output, and the rows passed to \<^verbatim>\<open>o_proj\<close> have \<open>v_head_dim\<close> channels per head.
\<close>

theorem attention_padding_truncated:
  assumes fw: "attn_heads_output m uninit hs cos_t sin_t attention_mask past_key_value
                 output_attentions eager_attention_forward ALL_ATTENTION_FUNCTIONS
               = Some (attn_output, attn_weights)"
    and flash: "attn_implementation m = ''flash_attention_2''"
    and vq: "v_head_dim m < q_head_dim m"
    and kern: "ALL_ATTENTION_FUNCTIONS ''flash_attention_2'' = Some flash_kernel"
      "kernel_keeps_last_dim flash_kernel"
    and cache: "cache_keeps_last_dim past_key_value"
  shows "last_dim_is (v_head_dim m) attn_output \<and>
         (\<forall>b < length attn_output. \<forall>s < length (attn_output ! b).
            length (attn_reshape attn_output ! b ! s)
              = length (attn_output ! b ! s) * v_head_dim m) \<and>
         (\<exists>query_states key_states value_states.
            last_dim_is (q_head_dim m) value_states \<and>
            attn_output = map (map (map (take (v_head_dim m))))
              (fst (flash_kernel query_states key_states value_states attention_mask
                      (if \<not> training m then 0 else attention_dropout m) (scaling m))))"
proof -
  from fw obtain Q K V where st: "attn_states m uninit hs cos_t sin_t = Some (Q, K, V)"
    by (auto simp: attn_heads_output_def split: option.splits)
  define KV where "KV = (case past_key_value of None \<Rightarrow> (K, V) | Some update \<Rightarrow> update K V)"
  have V: "last_dim_is (q_head_dim m) V" using st flash vq by (rule attn_states_values_last_dim)
  have V': "last_dim_is (q_head_dim m) (snd KV)"
    using V cache by (auto simp: KV_def cache_keeps_last_dim_def split: option.splits)
  define out where "out = fst (flash_kernel Q (fst KV) (snd KV) attention_mask
                      (if \<not> training m then 0 else attention_dropout m) (scaling m))"
  have o: "last_dim_is (q_head_dim m) out"
    unfolding out_def using kern(2) V' by (simp add: kernel_keeps_last_dim_def)
  have eq: "attn_output = map (map (map (take (v_head_dim m)))) out"
    using fw st flash vq kern(1)
    by (cases past_key_value)
      (auto simp: attn_heads_output_def out_def KV_def Let_def split_beta)
  have w: "last_dim_is (v_head_dim m) attn_output"
    unfolding eq using o by (rule last_dim_is_map) (use vq in simp)
  have r: "length (attn_reshape attn_output ! b ! s) = length (attn_output ! b ! s) * v_head_dim m"
    if "b < length attn_output" "s < length (attn_output ! b)" for b s
  proof -
    have "\<forall>x \<in> set (attn_output ! b ! s). length x = v_head_dim m"
      using w that by (auto simp: last_dim_is_iff in_set_conv_nth)
    then have "map length (attn_output ! b ! s)
                 = replicate (length (attn_output ! b ! s)) (v_head_dim m)"
      by (simp add: map_replicate_const [symmetric] cong: map_cong)
    then show ?thesis using that by (simp add: attn_reshape_def length_concat sum_list_replicate)
  qed
  show ?thesis using w r V' eq unfolding out_def by blast
qed

lemma ex_kernel_keeps_last_dim: "kernel_keeps_last_dim ex_kernel"
proof -
  have "last_dim_is n (map transpose v)" if v: "last_dim_is n v" for n v
    unfolding last_dim_is_def list_all_iff
  proof (intro ballI)
    fix tb row x
    assume tb: "tb \<in> set (map transpose v)" and row: "row \<in> set tb" and x: "x \<in> set row"
    from tb obtain vb where vb: "vb \<in> set v" "tb = transpose vb" by auto
    from row vb obtain i where i: "i < length (transpose vb)" "row = transpose vb ! i"
      by (auto simp: in_set_conv_nth)
    from x i have "x \<in> set (map (\<lambda>xs. xs ! i) (filter (\<lambda>ys. i < length ys) vb))"
      by (simp add: nth_transpose)
    then obtain ys where "ys \<in> set vb" "i < length ys" "x = ys ! i" by auto
    then have "ys \<in> set vb" "x \<in> set ys" by simp_all
    with v vb(1) show "length x = n" by (auto simp: last_dim_is_def list_all_iff)
  qed
  then show ?thesis by (simp add: kernel_keeps_last_dim_def ex_kernel_def)
qed

lemma ex_attention_heads_output:
  "attn_heads_output ex_attention 99 [[[1], [2]], [[3], [4]]] [[[0, 0], [0, 0]]] [[[1, 1], [1, 1]]]
     None None False ex_kernel [''flash_attention_2'' \<mapsto> ex_kernel]
   = Some ([[[[20], [40]], [[40], [80]]], [[[60], [120]], [[80], [160]]]], None)"
  by code_simp

theorem attention_padding_truncated_witness:
  "attn_heads_output ex_attention 99 [[[1], [2]], [[3], [4]]] [[[0, 0], [0, 0]]] [[[1, 1], [1, 1]]]
     None None False ex_kernel [''flash_attention_2'' \<mapsto> ex_kernel]
   = Some ([[[[20], [40]], [[40], [80]]], [[[60], [120]], [[80], [160]]]], None) \<and>
   v_head_dim ex_attention < q_head_dim ex_attention \<and>
   kernel_keeps_last_dim ex_kernel \<and>
   last_dim_is (v_head_dim ex_attention)
     [[[[20], [40]], [[40], [80]]], [[[60], [120]], [[80], [160]]]]"
proof -
  have flash: "attn_implementation ex_attention = ''flash_attention_2''"
    by (simp add: ex_attention_def)
  have vq: "v_head_dim ex_attention < q_head_dim ex_attention"
    by (simp add: ex_attention_def)
  have k: "[''flash_attention_2'' \<mapsto> ex_kernel] ''flash_attention_2'' = Some ex_kernel"
    by simp
  have c: "cache_keeps_last_dim None" by (simp add: cache_keeps_last_dim_def)
  show ?thesis
    using attention_padding_truncated
      [OF ex_attention_heads_output flash vq k ex_kernel_keeps_last_dim c]
      ex_attention_heads_output vq ex_kernel_keeps_last_dim
    by blast
qed

section \<open>Expert dispatch\<close>

lemma count_list_distinct:
  "distinct xs \<Longrightarrow> count_list xs e = (if e \<in> set xs then 1 else 0)"
  by (induction xs) auto

lemma count_list_concat:
  "count_list (concat xss) e = sum_list (map (\<lambda>xs. count_list xs e) xss)"
  by (induction xss) simp_all

lemma tokens_per_expert_length: "length (tokens_per_expert n idx) = n"
  by (simp add: tokens_per_expert_def)

lemma tokens_per_expert_nth:
  assumes "\<forall>row \<in> set idx. distinct row" and "e < n"
  shows "tokens_per_expert n idx ! e = count_list (concat idx) e"
proof -
  have "sum_list (map (\<lambda>row. row ! e) (map (scatter_ones n) idx))
        = sum_list (map (\<lambda>row. count_list row e) idx)"
    using assms by (induction idx) (simp_all add: scatter_ones_nth count_list_distinct)
  then show ?thesis using assms(2)
    by (simp add: tokens_per_expert_def count_list_concat)
qed

lemma tokens_per_expert_eq:
  assumes "\<forall>row \<in> set idx. distinct row"
  shows "tokens_per_expert n idx = map (count_list (concat idx)) [0..<n]"
  by (rule nth_equalityI)
    (simp_all add: tokens_per_expert_length tokens_per_expert_nth [OF assms])

lemma argsort_props:
  shows "length (argsort xs) = length xs"
    and "distinct (argsort xs)"
    and "set (argsort xs) = {..<length xs}"
    and "sorted (map (\<lambda>i. xs ! i) (argsort xs))"
    and "mset (map (\<lambda>i. xs ! i) (argsort xs)) = mset xs"
proof -
  show "length (argsort xs) = length xs" by (simp add: argsort_def)
  show "distinct (argsort xs)" by (simp add: argsort_def)
  show "set (argsort xs) = {..<length xs}" by (auto simp: argsort_def)
  show "sorted (map (\<lambda>i. xs ! i) (argsort xs))" unfolding argsort_def by (rule sorted_sort_key)
  have "mset (map (\<lambda>i. xs ! i) (argsort xs)) = image_mset (\<lambda>i. xs ! i) (mset [0..<length xs])"
    by (simp add: argsort_def)
  also have "\<dots> = mset (map (\<lambda>i. xs ! i) [0..<length xs])" by simp
  also have "\<dots> = mset xs" by (simp add: map_nth)
  finally show "mset (map (\<lambda>i. xs ! i) (argsort xs)) = mset xs" .
qed

lemma run_lengths_set: "set (concat (map (\<lambda>e. replicate (c e) e) [0..<n])) \<subseteq> {..<n}"
  by auto

lemma run_lengths_sorted: "sorted (concat (map (\<lambda>e. replicate (c e) e) [0..<n]))"
proof (induction n)
  case 0
  show ?case by simp
next
  case (Suc n)
  have "\<forall>x \<in> set (concat (map (\<lambda>e. replicate (c e) e) [0..<n])). x \<le> n" by auto
  with Suc show ?case by (auto simp: sorted_append)
qed

lemma count_list_replicate_eq: "count_list (replicate n x) y = (if x = y then n else 0)"
  by (induction n) auto

lemma run_lengths_count:
  "count_list (concat (map (\<lambda>e. replicate (c e) e) [0..<n])) x = (if x < n then c x else 0)"
  by (induction n) (auto simp: count_list_replicate_eq less_Suc_eq)

lemma sorted_run_lengths:
  assumes s: "sorted ks" and r: "\<forall>k \<in> set ks. k < n"
  shows "ks = concat (map (\<lambda>e. replicate (count_list ks e) e) [0..<(n :: nat)])"
proof -
  let ?r = "concat (map (\<lambda>e. replicate (count_list ks e) e) [0..<n])"
  have "mset ?r = mset ks"
  proof (rule multiset_eqI)
    fix x
    have "count_list ks x = 0" if "\<not> x < n" using that r by (auto simp: count_list_0_iff)
    then show "count (mset ?r) x = count (mset ks) x"
      by (simp add: count_mset run_lengths_count)
  qed
  then have "sort ks = ?r" using run_lengths_sorted by (rule properties_for_sort)
  moreover have "sort ks = ks" using s by (rule sorted_sort_id)
  ultimately show ?thesis by simp
qed

lemma zip_replicate_short:
  "length ts \<le> c \<Longrightarrow> map2 f (replicate c e) ts = map (f e) ts"
proof (induction ts arbitrary: c)
  case Nil
  show ?case by simp
next
  case (Cons t ts)
  then obtain c' where "c = Suc c'" by (cases c) auto
  with Cons show ?case by simp
qed

lemma dispatch_loop_concat:
  "concat (dispatch_loop ex st ecs pos outs) =
     concat outs @
     map2 (\<lambda>e x. mlp_row (ex ! e) x) (concat (map (\<lambda>(e, c). replicate c e) ecs)) (drop pos st)"
proof (induction ex st ecs pos outs rule: dispatch_loop.induct)
  case (1 ex st pos outs)
  show ?case by simp
next
  case (2 ex st e c rest pos outs)
  show ?case
  proof (cases "c = 0")
    case True
    with 2 show ?thesis by simp
  next
    case False
    have z: "map2 (\<lambda>e x. mlp_row (ex ! e) x) (replicate c e) (take c (drop pos st))
             = map (mlp_row (ex ! e)) (take c (drop pos st))"
      by (rule zip_replicate_short) simp
    have "concat (dispatch_loop ex st ((e, c) # rest) pos outs) =
          concat (outs @ [mlp_forward (ex ! e) (take c (drop pos st))]) @
          map2 (\<lambda>e x. mlp_row (ex ! e) x) (concat (map (\<lambda>(e, c). replicate c e) rest))
            (drop (pos + c) st)"
      using False "2.IH"(2) [OF False refl refl refl] by (simp add: Let_def)
    also have "\<dots> = concat outs @
          map2 (\<lambda>e x. mlp_row (ex ! e) x)
            (replicate c e @ concat (map (\<lambda>(e, c). replicate c e) rest)) (drop pos st)"
      by (simp add: zip_append1 z mlp_forward_def add.commute)
    finally show ?thesis by simp
  qed
qed

lemma index_put_Cons:
  "index_put dst (i # idx) (x # src) = index_put (dst[i := x]) idx src"
  by (simp add: index_put_def)

lemma index_put_length: "length (index_put dst idx src) = length dst"
proof (induction idx arbitrary: dst src)
  case Nil
  show ?case by (simp add: index_put_def)
next
  case (Cons i idx)
  show ?case
  proof (cases src)
    case Nil
    then show ?thesis by (simp add: index_put_def)
  next
    case (Cons x src')
    then show ?thesis using Cons.IH by (simp add: index_put_Cons)
  qed
qed

lemma index_put_other:
  "p \<notin> set idx \<Longrightarrow> index_put dst idx src ! p = dst ! p"
proof (induction idx arbitrary: dst src)
  case Nil
  show ?case by (simp add: index_put_def)
next
  case (Cons i idx)
  show ?case
  proof (cases src)
    case Nil
    then show ?thesis by (simp add: index_put_def)
  next
    case (Cons x src')
    then show ?thesis using Cons.IH [of "dst[i := x]" src'] Cons.prems
      by (simp add: index_put_Cons)
  qed
qed

lemma index_put_nth:
  assumes "distinct idx" "length src = length idx" "\<forall>i \<in> set idx. i < length dst"
    "j < length idx"
  shows "index_put dst idx src ! (idx ! j) = src ! j"
  using assms
proof (induction idx arbitrary: dst src j)
  case Nil
  then show ?case by simp
next
  case (Cons i idx)
  then obtain x src' where src: "src = x # src'" by (cases src) auto
  show ?case
  proof (cases j)
    case 0
    then show ?thesis using Cons.prems src
      by (simp add: index_put_Cons index_put_other)
  next
    case (Suc j')
    then show ?thesis using Cons.prems src Cons.IH [of src' "dst[i := x]" j']
      by (simp add: index_put_Cons)
  qed
qed

lemma index_put_map:
  assumes "distinct idx" "set idx = {..<length dst}" "p < length dst"
  shows "index_put dst idx (map g idx) ! p = g p"
proof -
  from assms(2,3) have "p \<in> set idx" by simp
  then obtain j where j: "j < length idx" "idx ! j = p"
    by (auto simp: in_set_conv_nth)
  have "index_put dst idx (map g idx) ! (idx ! j) = map g idx ! j"
    using assms(1) _ _ j(1) by (rule index_put_nth) (use assms(2) in auto)
  then show ?thesis using j by simp
qed

lemma length_concat_rect:
  "\<forall>row \<in> set xss. length row = k \<Longrightarrow> length (concat xss) = length xss * k"
  by (induction xss) simp_all

lemma concat_nth_rect:
  assumes "\<forall>row \<in> set xss. length row = k" "t < length xss" "j < k"
  shows "concat xss ! (t * k + j) = xss ! t ! j"
  using assms
proof (induction xss arbitrary: t)
  case Nil
  then show ?case by simp
next
  case (Cons row xss)
  show ?case
  proof (cases t)
    case 0
    then show ?thesis using Cons.prems by (simp add: nth_append)
  next
    case (Suc t')
    then show ?thesis using Cons.prems Cons.IH [of t'] by (simp add: nth_append)
  qed
qed

lemma moe_infer_shapes_okD:
  assumes "moe_infer_shapes_ok ex hs idx ws"
  shows "idx \<noteq> []" "0 < length (idx ! 0)" "hs \<noteq> []"
    and "\<forall>row \<in> set idx. length row = length (idx ! 0)"
    and "length ws = length idx"
    and "\<forall>row \<in> set ws. length row = length (idx ! 0)"
    and "length idx \<le> length hs"
    and "\<forall>x \<in> set hs. length x = length (hs ! 0)"
    and "\<forall>e \<in> set (concat idx). e < length ex"
    and "\<forall>e \<in> set (concat idx). mlp_shape (ex ! e) (length (hs ! 0))"
proof -
  from assms have a: "idx \<noteq> []" "idx ! 0 \<noteq> []" "hs \<noteq> []"
    "\<forall>row \<in> set idx. length row = length (idx ! 0)"
    "length ws = length idx"
    "\<forall>row \<in> set ws. length row = length (idx ! 0)"
    "length idx \<le> length hs"
    "\<forall>x \<in> set hs. length x = length (hs ! 0)"
    "\<forall>row \<in> set idx. \<forall>e \<in> set row.
       e < length ex \<and> mlp_shape (ex ! e) (length (hs ! 0))"
    unfolding moe_infer_shapes_ok_def list_all_iff by blast+
  show "idx \<noteq> []" "hs \<noteq> []" by (rule a)+
  show "0 < length (idx ! 0)" using a(2) by simp
  show "\<forall>row \<in> set idx. length row = length (idx ! 0)" by (rule a)
  show "length ws = length idx" by (rule a)
  show "\<forall>row \<in> set ws. length row = length (idx ! 0)" by (rule a)
  show "length idx \<le> length hs" by (rule a)
  show "\<forall>x \<in> set hs. length x = length (hs ! 0)" by (rule a)
  show "\<forall>e \<in> set (concat idx). e < length ex" using a(9) by auto
  show "\<forall>e \<in> set (concat idx). mlp_shape (ex ! e) (length (hs ! 0))" using a(9) by auto
qed

lemma zip_map_self: "zip xs (map f xs) = map (\<lambda>x. (x, f x)) xs"
  by (induction xs) simp_all

lemma map2_map_same: "map2 f (map a xs) (map b xs) = map (\<lambda>x. f (a x) (b x)) xs"
  by (induction xs) simp_all

lemma moe_expert_outputs:
  assumes ok: "moe_infer_shapes_ok ex hs idx ws" and dist: "\<forall>row \<in> set idx. distinct row"
  shows "concat (dispatch_loop ex
            (map (\<lambda>i. hs ! (i div length (idx ! 0))) (argsort (concat idx)))
            (zip [0..<length ex] (tokens_per_expert (length ex) idx)) 0 [])
         = map (\<lambda>i. mlp_row (ex ! (concat idx ! i)) (hs ! (i div length (idx ! 0))))
             (argsort (concat idx))"
proof -
  let ?flat = "concat idx" and ?s = "argsort (concat idx)"
  let ?keys = "map (\<lambda>i. concat idx ! i) (argsort (concat idx))"
  note d = moe_infer_shapes_okD [OF ok]
  note a = argsort_props [of ?flat]
  have cnt: "count_list ?keys e = count_list ?flat e" for e
  proof -
    have "count (mset ?keys) e = count (mset ?flat) e" by (simp only: a(5))
    then show ?thesis by (simp only: count_mset)
  qed
  have rng: "\<forall>k \<in> set ?keys. k < length ex"
  proof
    fix k assume "k \<in> set ?keys"
    then obtain i where "i \<in> set ?s" "k = ?flat ! i" by auto
    then have "i < length ?flat" "k = ?flat ! i" using a(3) by simp_all
    then have "k \<in> set ?flat" by (simp only: nth_mem)
    with d(9) show "k < length ex" by blast
  qed
  have "zip [0..<length ex] (tokens_per_expert (length ex) idx)
        = map (\<lambda>e. (e, count_list ?flat e)) [0..<length ex]"
    unfolding tokens_per_expert_eq [OF dist] by (rule zip_map_self)
  then have "concat (map (\<lambda>(e, c). replicate c e)
               (zip [0..<length ex] (tokens_per_expert (length ex) idx)))
             = concat (map (\<lambda>e. replicate (count_list ?keys e) e) [0..<length ex])"
    by (simp only: cnt) (simp add: comp_def)
  also have "\<dots> = ?keys" using sorted_run_lengths [OF a(4) rng] by simp
  finally have k: "concat (map (\<lambda>(e, c). replicate c e)
               (zip [0..<length ex] (tokens_per_expert (length ex) idx))) = ?keys" .
  show ?thesis
    unfolding dispatch_loop_concat k
    by (simp add: map2_map_same)
qed

lemma moe_reordered_entries:
  assumes ok: "moe_infer_shapes_ok ex hs idx ws" and dist: "\<forall>row \<in> set idx. distinct row"
  shows "\<exists>r. moe_reordered ex uninit hs idx ws = Some r \<and>
             length r = length idx * length (idx ! 0) \<and>
             (\<forall>p < length idx * length (idx ! 0).
                r ! p = mlp_row (ex ! (concat idx ! p)) (hs ! (p div length (idx ! 0))))"
proof -
  let ?flat = "concat idx" and ?s = "argsort (concat idx)" and ?k = "length (idx ! 0)"
  let ?g = "\<lambda>i. mlp_row (ex ! (concat idx ! i)) (hs ! (i div length (idx ! 0)))"
  let ?dst = "replicate (length (map ?g ?s)) (replicate (length (hs ! 0)) uninit)"
  note d = moe_infer_shapes_okD [OF ok]
  note a = argsort_props [of ?flat]
  have len: "length ?flat = length idx * ?k" using d(4) by (rule length_concat_rect)
  have r: "moe_reordered ex uninit hs idx ws = Some (index_put ?dst ?s (map ?g ?s))"
    using ok by (simp add: moe_reordered_def Let_def moe_expert_outputs [OF ok dist])
  have l: "length (index_put ?dst ?s (map ?g ?s)) = length idx * ?k"
    using a(1) len by (simp add: index_put_length)
  have e: "index_put ?dst ?s (map ?g ?s) ! p = ?g p" if "p < length idx * ?k" for p
    using a(2) by (rule index_put_map) (use a(1) a(3) len that in simp_all)
  show ?thesis using r l e by simp
qed

lemma view_groups_nth:
  assumes "t < n" "length r = n * k"
  shows "view_groups n k r ! t = map (\<lambda>j. r ! (t * k + j)) [0..<k]"
proof -
  have "t * k + k \<le> n * k"
    using assms(1) by (metis Suc_leI mult_Suc mult_le_mono1 add.commute)
  then have l: "length (take k (drop (t * k) r)) = k" using assms(2) by simp
  have "take k (drop (t * k) r) = map (\<lambda>j. r ! (t * k + j)) [0..<k]"
  proof (rule nth_equalityI)
    show "length (take k (drop (t * k) r)) = length (map (\<lambda>j. r ! (t * k + j)) [0..<k])"
      using l by simp
    fix j assume "j < length (take k (drop (t * k) r))"
    then have j: "j < k" using l by simp
    have "t * k \<le> length r" using \<open>t * k + k \<le> n * k\<close> unfolding assms(2) by linarith
    then show "take k (drop (t * k) r) ! j = map (\<lambda>j. r ! (t * k + j)) [0..<k] ! j"
      using j by (simp add: nth_drop)
  qed
  then show ?thesis using assms(1) by (simp add: view_groups_def)
qed

lemma moe_infer_entries:
  assumes ok: "moe_infer_shapes_ok ex hs idx ws" and dist: "\<forall>row \<in> set idx. distinct row"
  shows "\<exists>y. moe_infer ex uninit hs idx ws = Some y \<and> length y = length idx \<and>
             (\<forall>t < length idx.
                y ! t = weighted_sum (length (hs ! 0)) (ws ! t)
                          (map (\<lambda>e. mlp_row (ex ! e) (hs ! t)) (idx ! t)))"
proof -
  let ?k = "length (idx ! 0)" and ?n = "length idx"
  note d = moe_infer_shapes_okD [OF ok]
  from moe_reordered_entries [OF ok dist, of uninit] obtain r where
    r: "moe_reordered ex uninit hs idx ws = Some r" "length r = ?n * ?k"
    and e: "\<And>p. p < ?n * ?k \<Longrightarrow>
              r ! p = mlp_row (ex ! (concat idx ! p)) (hs ! (p div ?k))"
    by blast
  let ?y = "map2 (weighted_sum (length (hs ! 0))) ws (view_groups ?n ?k r)"
  have y: "moe_infer ex uninit hs idx ws = Some ?y"
    by (simp add: moe_infer_def r(1) Let_def)
  have ly: "length ?y = ?n" using d(5) by (simp add: view_groups_def)
  have "?y ! t = weighted_sum (length (hs ! 0)) (ws ! t)
                   (map (\<lambda>e. mlp_row (ex ! e) (hs ! t)) (idx ! t))" if t: "t < ?n" for t
  proof -
    have lt: "length (idx ! t) = ?k" using d(4) t by simp
    have "view_groups ?n ?k r ! t = map (\<lambda>j. r ! (t * ?k + j)) [0..<?k]"
      using t r(2) by (rule view_groups_nth)
    also have "\<dots> = map (\<lambda>j. mlp_row (ex ! (idx ! t ! j)) (hs ! t)) [0..<?k]"
    proof (rule map_cong [OF refl])
      fix j assume "j \<in> set [0..<?k]"
      then have j: "j < ?k" by simp
      have "t * ?k + j < t * ?k + ?k" using j by simp
      also have "\<dots> \<le> ?n * ?k"
        using t by (metis Suc_leI mult_Suc mult_le_mono1 add.commute)
      finally have p: "t * ?k + j < ?n * ?k" .
      have "?k \<noteq> 0" using d(2) by simp
      then have dv: "(t * ?k + j) div ?k = t" using j by (simp add: div_mult_self3)
      show "r ! (t * ?k + j) = mlp_row (ex ! (idx ! t ! j)) (hs ! t)"
        unfolding e [OF p] dv concat_nth_rect [OF d(4) t j] by (rule refl)
    qed
    also have "\<dots> = map (\<lambda>e. mlp_row (ex ! e) (hs ! t)) (map (\<lambda>j. idx ! t ! j) [0..<?k])"
      by (simp add: comp_def)
    also have "map (\<lambda>j. idx ! t ! j) [0..<?k] = idx ! t"
      using lt map_nth [of "idx ! t"] by simp
    finally have v: "view_groups ?n ?k r ! t = map (\<lambda>e. mlp_row (ex ! e) (hs ! t)) (idx ! t)" .
    show ?thesis using t d(5) v by (simp add: view_groups_def)
  qed
  with y ly show ?thesis by blast
qed

lemma view_as_props:
  "length y = length (concat orig) \<Longrightarrow>
   concat (view_as orig y) = y \<and> map length (view_as orig y) = map length orig"
proof (induction orig arbitrary: y)
  case Nil
  then show ?case by simp
next
  case (Cons xb orig)
  then show ?case using Cons.IH [of "drop (length xb) y"] by simp
qed

lemma concat_map2_map2:
  "map length a = map length b \<Longrightarrow>
   concat (map2 (map2 f) a b) = map2 f (concat a) (concat b) \<and>
   map length (map2 (map2 f) a b) = map length a"
proof (induction a arbitrary: b)
  case Nil
  then show ?case by simp
next
  case (Cons x a)
  then obtain y b' where b: "b = y # b'" by (cases b) auto
  with Cons.prems have "length x = length y" "map length a = map length b'" by simp_all
  with Cons.IH [of b'] b show ?case by simp
qed

lemma mlp_forward_eq: "mlp_forward m = map (mlp_row m)"
  by (rule ext) (simp add: mlp_forward_def)

lemma DeepseekV3MoE_forwardD:
  assumes "DeepseekV3MoE_forward m uninit hs = Some y"
  obtains topk_indices topk_weights y2 where
    "MoEGate_forward (gate_cfg m) (gate_weight m) (gate_bias m) hs
       = Some (topk_indices, topk_weights)"
    "mlp_shape (shared_experts m) (hidden_size (gate_cfg m))"
    "moe_infer (experts m) uninit (concat hs) topk_indices topk_weights = Some y2"
    "y = map2 (map2 (map2 (+))) (view_as hs y2) (map (mlp_forward (shared_experts m)) hs)"
  using assms
  by (auto simp: DeepseekV3MoE_forward_def Let_def split: option.splits if_splits)

text \<open>
  C2. When the forward pass of the mixture returns, the gate has returned indices and
  weights, the output has the shape of the input, and the output of every token is the
  sum over its slots of the slot's weight times the output of the slot's expert on the
  token's hidden state, plus the output of the shared expert on that hidden state. The
  reordered outputs hold, at the position of slot \<open>j\<close> of token \<open>t\<close> in the flattened
  indices, the output of that slot's expert on that token: the assignment through the
  sorted indices undoes the sort.
\<close>

theorem moe_forward_weighted_expert_sum:
  assumes fw: "DeepseekV3MoE_forward m uninit hs = Some y"
  shows "\<exists>topk_indices topk_weights reordered.
           MoEGate_forward (gate_cfg m) (gate_weight m) (gate_bias m) hs
             = Some (topk_indices, topk_weights) \<and>
           map length y = map length hs \<and>
           (\<forall>t < length (concat hs).
              concat y ! t =
                map2 (+)
                  (weighted_sum (hidden_size (gate_cfg m)) (topk_weights ! t)
                     (map (\<lambda>e. mlp_row (experts m ! e) (concat hs ! t)) (topk_indices ! t)))
                  (mlp_row (shared_experts m) (concat hs ! t))) \<and>
           moe_reordered (experts m) uninit (concat hs) topk_indices topk_weights
             = Some reordered \<and>
           (\<forall>t < length (concat hs). \<forall>j < top_k (gate_cfg m).
              reordered ! (t * top_k (gate_cfg m) + j)
                = mlp_row (experts m ! (topk_indices ! t ! j)) (concat hs ! t))"
proof -
  from fw obtain I W y2 where
    g: "MoEGate_forward (gate_cfg m) (gate_weight m) (gate_bias m) hs = Some (I, W)"
    and inf: "moe_infer (experts m) uninit (concat hs) I W = Some y2"
    and y: "y = map2 (map2 (map2 (+))) (view_as hs y2) (map (mlp_forward (shared_experts m)) hs)"
    by (rule DeepseekV3MoE_forwardD)
  let ?hs = "concat hs" and ?k = "top_k (gate_cfg m)"
  note r = MoEGate_forward_rows [OF g]
  have lI: "length I = length ?hs" by (rule r(2))
  have ok: "moe_infer_shapes_ok (experts m) ?hs I W"
    using inf by (auto simp: moe_infer_def moe_reordered_def split: option.splits if_splits)
  note d = moe_infer_shapes_okD [OF ok]
  have dist: "\<forall>row \<in> set I. distinct row"
    using MoEGate_forward_indices(2) [OF g] by (auto simp: in_set_conv_nth)
  have k: "length (I ! 0) = ?k"
    using MoEGate_forward_indices(1) [OF g, of 0] d(1) by simp
  have hw: "length (?hs ! 0) = hidden_size (gate_cfg m)"
  proof -
    have "0 < length ?hs" using d(3) by (metis length_greater_0_conv)
    then have "?hs ! 0 \<in> set ?hs" by (rule nth_mem)
    moreover have "\<forall>x \<in> set ?hs. length x = hidden_size (gate_cfg m)"
      using r(1) unfolding gate_shapes_ok_def list_all_iff by auto
    ultimately show ?thesis by blast
  qed
  from moe_infer_entries [OF ok dist, of uninit] inf have
    l2: "length y2 = length I"
    and e2: "\<And>t. t < length I \<Longrightarrow>
              y2 ! t = weighted_sum (length (?hs ! 0)) (W ! t)
                         (map (\<lambda>e. mlp_row (experts m ! e) (?hs ! t)) (I ! t))"
    by auto
  from moe_reordered_entries [OF ok dist, of uninit] obtain reordered where
    ro: "moe_reordered (experts m) uninit ?hs I W = Some reordered"
    and re: "\<And>p. p < length I * length (I ! 0) \<Longrightarrow>
               reordered ! p = mlp_row (experts m ! (concat I ! p)) (?hs ! (p div length (I ! 0)))"
    by blast
  \<comment> \<open>the shape and the rows of the output\<close>
  have v: "concat (view_as hs y2) = y2" "map length (view_as hs y2) = map length hs"
    using view_as_props [of y2 hs] l2 lI by simp_all
  have ml: "map length (view_as hs y2) = map length (map (mlp_forward (shared_experts m)) hs)"
    using v(2) by (simp add: mlp_forward_eq comp_def)
  note c = concat_map2_map2 [OF ml, of "map2 (+)"]
  have shape: "map length y = map length hs" unfolding y using c v(2) by simp
  have cy: "concat y = map2 (map2 (+)) y2 (map (mlp_row (shared_experts m)) ?hs)"
    unfolding y using c v(1) by (simp add: mlp_forward_eq map_concat)
  have rows: "concat y ! t =
                map2 (+)
                  (weighted_sum (hidden_size (gate_cfg m)) (W ! t)
                     (map (\<lambda>e. mlp_row (experts m ! e) (?hs ! t)) (I ! t)))
                  (mlp_row (shared_experts m) (?hs ! t))" if "t < length ?hs" for t
    unfolding cy using that l2 lI e2 [of t] hw by simp
  \<comment> \<open>the reordered outputs\<close>
  have slots: "reordered ! (t * ?k + j) = mlp_row (experts m ! (I ! t ! j)) (?hs ! t)"
    if t: "t < length ?hs" and j: "j < ?k" for t j
  proof -
    have t': "t < length I" using t lI by simp
    have j': "j < length (I ! 0)" using j k by simp
    have "t * ?k + j < t * ?k + ?k" using j by simp
    also have "\<dots> \<le> length I * ?k"
      using t' by (metis Suc_leI mult_Suc mult_le_mono1 add.commute)
    finally have p: "t * length (I ! 0) + j < length I * length (I ! 0)" using k by simp
    have "?k \<noteq> 0" using j by simp
    then have dv: "(t * length (I ! 0) + j) div length (I ! 0) = t"
      using j k by (simp add: div_mult_self3)
    show ?thesis
      using re [OF p] dv concat_nth_rect [OF d(4) t' j'] k by simp
  qed
  show ?thesis using g shape rows ro slots by blast
qed

lemma ex_moe_gate:
  "MoEGate_forward (gate_cfg (ex_moe [0, 0, 1, 1])) (gate_weight (ex_moe [0, 0, 1, 1]))
     (gate_bias (ex_moe [0, 0, 1, 1])) ex_hidden
   = Some ([[2, 3], [2, 3]], [[5 / 4, 5 / 4], [5 / 4, 5 / 4]])"
proof -
  have ok: "gate_shapes_ok (ex_cfg\<lparr>norm_topk_prob := False\<rparr>) ex_weight [0, 0, 1, 1] ex_hidden"
    by (simp add: gate_shapes_ok_def ex_cfg_def ex_weight_def ex_hidden_def)
  show ?thesis
    unfolding MoEGate_forward_def ex_moe_def using ok
    apply (simp add: ex_scores)
    apply code_simp
    done
qed

lemma ex_moe_forward:
  "DeepseekV3MoE_forward (ex_moe [0, 0, 1, 1]) 99 ex_hidden = Some [[[435 / 4], [435]]]"
  unfolding DeepseekV3MoE_forward_def
  apply (simp add: ex_moe_gate)
  apply code_simp
  done

theorem moe_forward_weighted_expert_sum_witness:
  "DeepseekV3MoE_forward (ex_moe [0, 0, 1, 1]) 99 ex_hidden = Some [[[435 / 4], [435]]] \<and>
   concat [[[435 / 4], [435 :: real]]] ! 1 =
     map2 (+)
       (weighted_sum (hidden_size (gate_cfg (ex_moe [0, 0, 1, 1]))) [5 / 4, 5 / 4]
          (map (\<lambda>e. mlp_row (experts (ex_moe [0, 0, 1, 1]) ! e) (concat ex_hidden ! 1)) [2, 3]))
       (mlp_row (shared_experts (ex_moe [0, 0, 1, 1])) (concat ex_hidden ! 1))"
proof -
  have t: "1 < length (concat ex_hidden)" by (simp add: ex_hidden_def)
  from moe_forward_weighted_expert_sum [OF ex_moe_forward] obtain I W where
    g: "MoEGate_forward (gate_cfg (ex_moe [0, 0, 1, 1])) (gate_weight (ex_moe [0, 0, 1, 1]))
          (gate_bias (ex_moe [0, 0, 1, 1])) ex_hidden = Some (I, W)"
    and r: "\<forall>t < length (concat ex_hidden).
              concat [[[435 / 4], [435 :: real]]] ! t =
                map2 (+)
                  (weighted_sum (hidden_size (gate_cfg (ex_moe [0, 0, 1, 1]))) (W ! t)
                     (map (\<lambda>e. mlp_row (experts (ex_moe [0, 0, 1, 1]) ! e) (concat ex_hidden ! t))
                        (I ! t)))
                  (mlp_row (shared_experts (ex_moe [0, 0, 1, 1])) (concat ex_hidden ! t))"
    by blast
  from g ex_moe_gate have IW: "I = [[2, 3], [2, 3]]" "W = [[5 / 4, 5 / 4], [5 / 4, 5 / 4]]"
    by simp_all
  from r t have
    "concat [[[435 / 4], [435 :: real]]] ! 1 =
       map2 (+)
         (weighted_sum (hidden_size (gate_cfg (ex_moe [0, 0, 1, 1]))) (W ! 1)
            (map (\<lambda>e. mlp_row (experts (ex_moe [0, 0, 1, 1]) ! e) (concat ex_hidden ! 1)) (I ! 1)))
         (mlp_row (shared_experts (ex_moe [0, 0, 1, 1])) (concat ex_hidden ! 1))"
    by blast
  then show ?thesis using ex_moe_forward unfolding IW by simp
qed

lemma tokens_per_expert_zero:
  assumes "e < n" "e \<notin> set (concat idx)"
  shows "tokens_per_expert n idx ! e = 0"
proof -
  have "sum_list (map (\<lambda>row. row ! e) (map (scatter_ones n) idx)) = (0 :: nat)"
    using assms by (induction idx) (simp_all add: scatter_ones_nth)
  then show ?thesis using assms(1) by (simp add: tokens_per_expert_def)
qed

lemma tokens_per_expert_Suc:
  assumes "n \<notin> set (concat idx)"
  shows "tokens_per_expert (Suc n) idx = tokens_per_expert n idx @ [0]"
proof (rule nth_equalityI)
  show "length (tokens_per_expert (Suc n) idx) = length (tokens_per_expert n idx @ [0])"
    by (simp add: tokens_per_expert_length)
  fix e assume "e < length (tokens_per_expert (Suc n) idx)"
  then have e: "e < Suc n" by (simp add: tokens_per_expert_length)
  show "tokens_per_expert (Suc n) idx ! e = (tokens_per_expert n idx @ [0]) ! e"
  proof (cases "e < n")
    case True
    have "sum_list (map (\<lambda>row. row ! e) (map (scatter_ones (Suc n)) idx))
          = (sum_list (map (\<lambda>row. row ! e) (map (scatter_ones n) idx)) :: nat)"
      using True by (induction idx) (simp_all add: scatter_ones_nth)
    then show ?thesis using True e
      by (simp add: tokens_per_expert_def nth_append)
  next
    case False
    with e have "e = n" by simp
    then show ?thesis using tokens_per_expert_zero [of n "Suc n" idx] assms
      by (simp add: nth_append tokens_per_expert_length)
  qed
qed

lemma dispatch_loop_cong:
  assumes "\<forall>(e, c) \<in> set ecs. c \<noteq> 0 \<longrightarrow> ex ! e = ex' ! e"
  shows "dispatch_loop ex st ecs pos outs = dispatch_loop ex' st ecs pos outs"
  using assms
proof (induction ecs arbitrary: pos outs)
  case Nil
  show ?case by simp
next
  case (Cons a ecs)
  obtain e c where a: "a = (e, c)" by (cases a)
  show ?case using Cons.prems Cons.IH unfolding a by (simp add: Let_def)
qed

lemma dispatch_loop_skip_last:
  "dispatch_loop ex st (ecs @ [(e, 0)]) pos outs = dispatch_loop ex st ecs pos outs"
proof (induction ecs arbitrary: pos outs)
  case Nil
  show ?case by simp
next
  case (Cons a ecs)
  obtain e' c where a: "a = (e', c)" by (cases a)
  show ?case using Cons.IH unfolding a by (simp add: Let_def)
qed

lemma zip_upt_tokens:
  assumes "(e, c) \<in> set (zip [0..<n] (tokens_per_expert n idx))"
  shows "e < n" "c = tokens_per_expert n idx ! e"
proof -
  from assms obtain i where i: "i < n" "[0..<n] ! i = e" "tokens_per_expert n idx ! i = c"
    by (auto simp: in_set_zip tokens_per_expert_length)
  then show "e < n" "c = tokens_per_expert n idx ! e" by simp_all
qed

lemma moe_reordered_update:
  assumes e: "e \<notin> set (concat idx)"
  shows "moe_reordered (ex[e := m']) uninit hs idx ws = moe_reordered ex uninit hs idx ws"
proof -
  have neq: "\<forall>row \<in> set idx. \<forall>e' \<in> set row. e' \<noteq> e"
    using e by auto
  have "list_all (list_all (\<lambda>e'. e' < length (ex[e := m']) \<and>
            mlp_shape (ex[e := m'] ! e') (length (hs ! 0)))) idx
        = list_all (list_all (\<lambda>e'. e' < length ex \<and> mlp_shape (ex ! e') (length (hs ! 0)))) idx"
    unfolding list_all_iff
  proof (intro ball_cong refl)
    fix xs e' assume "xs \<in> set idx" "e' \<in> set xs"
    then have "e' \<noteq> e" using neq by blast
    then show "(e' < length (ex[e := m']) \<and> mlp_shape (ex[e := m'] ! e') (length (hs ! 0)))
             = (e' < length ex \<and> mlp_shape (ex ! e') (length (hs ! 0)))" by simp
  qed
  then have ok: "moe_infer_shapes_ok (ex[e := m']) hs idx ws = moe_infer_shapes_ok ex hs idx ws"
    unfolding moe_infer_shapes_ok_def by simp
  have "\<forall>(e', c) \<in> set (zip [0..<length ex] (tokens_per_expert (length ex) idx)).
          c \<noteq> 0 \<longrightarrow> ex[e := m'] ! e' = ex ! e'"
  proof (rule ballI)
    fix p assume pm: "p \<in> set (zip [0..<length ex] (tokens_per_expert (length ex) idx))"
    obtain e' c where p: "p = (e', c)" by (cases p)
    note z = zip_upt_tokens [OF pm [unfolded p]]
    have "ex[e := m'] ! e' = ex ! e'" if c: "c \<noteq> 0"
    proof -
      have "e' \<noteq> e"
      proof
        assume "e' = e"
        then have "e < length ex" using z(1) by simp
        then have "tokens_per_expert (length ex) idx ! e = 0"
          using e by (rule tokens_per_expert_zero)
        with z(2) c \<open>e' = e\<close> show False by simp
      qed
      then show ?thesis by simp
    qed
    then show "case p of (e', c) \<Rightarrow> c \<noteq> 0 \<longrightarrow> ex[e := m'] ! e' = ex ! e'"
      unfolding p by simp
  qed
  then have "dispatch_loop (ex[e := m']) st
               (zip [0..<length ex] (tokens_per_expert (length ex) idx)) 0 []
             = dispatch_loop ex st
               (zip [0..<length ex] (tokens_per_expert (length ex) idx)) 0 []" for st
    by (rule dispatch_loop_cong)
  then have D: "dispatch_loop (ex[e := m']) st
               (zip [0..<length (ex[e := m'])] (tokens_per_expert (length (ex[e := m'])) idx)) 0 []
             = dispatch_loop ex st
               (zip [0..<length ex] (tokens_per_expert (length ex) idx)) 0 []" for st
    by simp
  show ?thesis
    unfolding moe_reordered_def Let_def D ok by (rule refl)
qed

lemma moe_reordered_append:
  assumes r: "\<forall>i \<in> set (concat idx). i < length ex"
  shows "moe_reordered (ex @ [m']) uninit hs idx ws = moe_reordered ex uninit hs idx ws"
proof -
  have lt: "\<forall>row \<in> set idx. \<forall>e' \<in> set row. e' < length ex"
    using r by auto
  have "list_all (list_all (\<lambda>e'. e' < length (ex @ [m']) \<and>
            mlp_shape ((ex @ [m']) ! e') (length (hs ! 0)))) idx
        = list_all (list_all (\<lambda>e'. e' < length ex \<and> mlp_shape (ex ! e') (length (hs ! 0)))) idx"
    unfolding list_all_iff
  proof (intro ball_cong refl)
    fix xs e' assume "xs \<in> set idx" "e' \<in> set xs"
    then have "e' < length ex" using lt by blast
    then show "(e' < length (ex @ [m']) \<and> mlp_shape ((ex @ [m']) ! e') (length (hs ! 0)))
             = (e' < length ex \<and> mlp_shape (ex ! e') (length (hs ! 0)))"
      by (simp add: nth_append)
  qed
  then have ok: "moe_infer_shapes_ok (ex @ [m']) hs idx ws = moe_infer_shapes_ok ex hs idx ws"
    unfolding moe_infer_shapes_ok_def by simp
  have n: "length ex \<notin> set (concat idx)" using r by auto
  have z: "zip [0..<length (ex @ [m'])] (tokens_per_expert (length (ex @ [m'])) idx)
           = zip [0..<length ex] (tokens_per_expert (length ex) idx) @ [(length ex, 0)]"
    using tokens_per_expert_Suc [OF n] by (simp add: tokens_per_expert_length)
  have "\<forall>(e', c) \<in> set (zip [0..<length ex] (tokens_per_expert (length ex) idx)).
          c \<noteq> 0 \<longrightarrow> (ex @ [m']) ! e' = ex ! e'"
  proof (rule ballI)
    fix p assume pm: "p \<in> set (zip [0..<length ex] (tokens_per_expert (length ex) idx))"
    obtain e' c where p: "p = (e', c)" by (cases p)
    have "(ex @ [m']) ! e' = ex ! e'"
      using zip_upt_tokens(1) [OF pm [unfolded p]] by (simp add: nth_append)
    then show "case p of (e', c) \<Rightarrow> c \<noteq> 0 \<longrightarrow> (ex @ [m']) ! e' = ex ! e'"
      unfolding p by simp
  qed
  then have "dispatch_loop (ex @ [m']) st
               (zip [0..<length ex] (tokens_per_expert (length ex) idx)) 0 []
             = dispatch_loop ex st
               (zip [0..<length ex] (tokens_per_expert (length ex) idx)) 0 []" for st
    by (rule dispatch_loop_cong)
  then have D: "dispatch_loop (ex @ [m']) st
               (zip [0..<length (ex @ [m'])] (tokens_per_expert (length (ex @ [m'])) idx)) 0 []
             = dispatch_loop ex st
               (zip [0..<length ex] (tokens_per_expert (length ex) idx)) 0 []" for st
    unfolding z dispatch_loop_skip_last .
  show ?thesis
    unfolding moe_reordered_def Let_def D ok by (rule refl)
qed

text \<open>
  C6. An expert that no token is assigned to takes no part in the dispatch: replacing it
  by any other expert, or appending a further expert that no index names, leaves the
  result of \<^verbatim>\<open>moe_infer\<close> as it is.
\<close>

theorem moe_infer_ignores_idle_expert:
  "(e \<notin> set (concat topk_indices) \<longrightarrow>
      moe_infer (ex[e := other]) uninit hidden_states topk_indices topk_weights
        = moe_infer ex uninit hidden_states topk_indices topk_weights) \<and>
   ((\<forall>i \<in> set (concat topk_indices). i < length ex) \<longrightarrow>
      moe_infer (ex @ [other]) uninit hidden_states topk_indices topk_weights
        = moe_infer ex uninit hidden_states topk_indices topk_weights)"
  by (simp add: moe_infer_def moe_reordered_update moe_reordered_append)

theorem moe_infer_ignores_idle_expert_witness:
  "1 \<notin> set (concat [[2, 3], [0, 3 :: nat]]) \<and>
   moe_infer ([ex_mlp 1, ex_mlp 2, ex_mlp 3, ex_mlp 4][1 := ex_mlp 77]) 99 [[1], [2]]
     [[2, 3], [0, 3]] [[1 / 2, 1 / 4], [1 / 8, 1]]
   = moe_infer [ex_mlp 1, ex_mlp 2, ex_mlp 3, ex_mlp 4] 99 [[1], [2]]
       [[2, 3], [0, 3]] [[1 / 2, 1 / 4], [1 / 8, 1]] \<and>
   moe_infer ([ex_mlp 1, ex_mlp 2, ex_mlp 3, ex_mlp 4] @ [ex_mlp 77]) 99 [[1], [2]]
     [[2, 3], [0, 3]] [[1 / 2, 1 / 4], [1 / 8, 1]]
   = moe_infer [ex_mlp 1, ex_mlp 2, ex_mlp 3, ex_mlp 4] 99 [[1], [2]]
       [[2, 3], [0, 3]] [[1 / 2, 1 / 4], [1 / 8, 1]] \<and>
   moe_infer [ex_mlp 1, ex_mlp 2, ex_mlp 3, ex_mlp 4] 99 [[1], [2]]
       [[2, 3], [0, 3]] [[1 / 2, 1 / 4], [1 / 8, 1]] = Some [[5 / 2], [33 / 2]]"
proof -
  have a: "1 \<notin> set (concat [[2, 3], [0, 3 :: nat]])" by simp
  have b: "\<forall>i \<in> set (concat [[2, 3], [0, 3 :: nat]]).
             i < length [ex_mlp 1, ex_mlp 2, ex_mlp 3, ex_mlp 4]" by simp
  have c: "moe_infer [ex_mlp 1, ex_mlp 2, ex_mlp 3, ex_mlp 4] 99 [[1], [2]]
       [[2, 3], [0, 3]] [[1 / 2, 1 / 4], [1 / 8, 1]] = Some [[5 / 2], [33 / 2]]"
    by code_simp
  show ?thesis
    using moe_infer_ignores_idle_expert
      [where e = 1 and topk_indices = "[[2, 3], [0, 3]]"
         and ex = "[ex_mlp 1, ex_mlp 2, ex_mlp 3, ex_mlp 4]" and other = "ex_mlp 77"
         and uninit = 99 and hidden_states = "[[1], [2]]"
         and topk_weights = "[[1 / 2, 1 / 4], [1 / 8, 1]]"] a b c
    by blast
qed

end
